theory Spec2Isabelle
  imports Main "HOL-Library.Word" "HOL-Library.Multiset" "HOL-Library.Sublist" "HOL-Library.AList"
begin

section \<open>Data model\<close>

text \<open>
  The program is dynamically typed. The keys of its dictionaries are either the integers
  obtained by iterating over a \<^verbatim>\<open>bytes\<close> object (binary mode, \<^verbatim>\<open>compress_file\<close>) or strings
  (text mode, and the bit-strings that \<^verbatim>\<open>decompress_file\<close> looks up). Both kinds of key
  live in one type, and two keys are equal only when they have the same kind.
\<close>

datatype pyval = PyInt int | PyStr string

type_synonym byte = "8 word"

text \<open>
  A Python \<^verbatim>\<open>dict\<close> iterates in insertion order, and the order in which
  \<^verbatim>\<open>frequency_table.items()\<close> is pushed on the heap decides the shape of the tree, so a
  dictionary is an association list in insertion order. Storing under an existing key
  replaces the value in place, storing under a new key appends: this is \<open>AList.update\<close>.
\<close>

type_synonym ('k, 'v) dict = "('k \<times> 'v) list"

datatype py_error = IndexError | KeyError | ValueError

datatype message =
    EmptyAlphabet  \<comment> \<open>the line printed by \<^verbatim>\<open>build_huffman_tree\<close> when the heap is empty\<close>
  | NoTable        \<comment> \<open>the line printed by \<^verbatim>\<open>decompress_file\<close> when no table is given\<close>

definition dict_get :: "('k, 'v) dict \<Rightarrow> 'k \<Rightarrow> 'v \<Rightarrow> 'v" where
  "dict_get d k dflt = (case map_of d k of None \<Rightarrow> dflt | Some v \<Rightarrow> v)"

definition dict_set :: "('k, 'v) dict \<Rightarrow> 'k \<Rightarrow> 'v \<Rightarrow> ('k, 'v) dict" where
  "dict_set d k v = AList.update k v d"

definition dict_item :: "('k, 'v) dict \<Rightarrow> 'k \<Rightarrow> py_error + 'v" where
  "dict_item d k = (case map_of d k of None \<Rightarrow> Inl KeyError | Some v \<Rightarrow> Inr v)"

text \<open>
  \<^verbatim>\<open>class HuffmanNode\<close>: four fields, the children are \<^verbatim>\<open>None\<close> or nodes. Frequencies are
  Python integers. \<^verbatim>\<open>__lt__\<close> compares the frequencies only.
\<close>

datatype HuffmanNode =
  HuffmanNode (char: "pyval option") (freq: int)
              (left: "HuffmanNode option") (right: "HuffmanNode option")

definition node_lt :: "HuffmanNode \<Rightarrow> HuffmanNode \<Rightarrow> bool" where
  "node_lt self other = (freq self < freq other)"

section \<open>The frequency table\<close>

text \<open>
  \<^verbatim>\<open>build_frequency_table(data)\<close>: \<open>data\<close> is the sequence of symbols that iterating over the
  input yields.
\<close>

definition count_char :: "(pyval, int) dict \<Rightarrow> pyval \<Rightarrow> (pyval, int) dict" where
  "count_char frequency_table c = dict_set frequency_table c (dict_get frequency_table c 0 + 1)"

definition build_frequency_table :: "pyval list \<Rightarrow> (pyval, int) dict" where
  "build_frequency_table data = foldl count_char [] data"

section \<open>The priority queue (\<^verbatim>\<open>heapq\<close> of the standard library)\<close>

text \<open>
  \<^verbatim>\<open>heappush\<close> and \<^verbatim>\<open>heappop\<close> work on a Python list by index. \<^verbatim>\<open>_siftdown\<close> and \<^verbatim>\<open>_siftup\<close>
  are private to the module; \<^verbatim>\<open>heappush\<close> and \<^verbatim>\<open>heappop\<close> call them with positions inside
  the list, where \<open>xs ! i\<close> and \<open>xs[i := v]\<close> are Python's indexing and item assignment.
  \<^verbatim>\<open>heappop\<close> on an empty list raises \<^verbatim>\<open>IndexError\<close>.
\<close>

function siftdown_loop ::
  "HuffmanNode list \<Rightarrow> nat \<Rightarrow> HuffmanNode \<Rightarrow> nat \<Rightarrow> HuffmanNode list \<times> nat" where
  "siftdown_loop heap startpos newitem pos =
     (if pos > startpos then
        (let parentpos = (pos - 1) div 2;
             parent = heap ! parentpos
         in if node_lt newitem parent
            then siftdown_loop (heap[pos := parent]) startpos newitem parentpos
            else (heap, pos))
      else (heap, pos))"
  by pat_completeness auto
termination
  by (relation "measure (\<lambda>(heap, startpos, newitem, pos). pos)") auto

declare siftdown_loop.simps [simp del]

definition siftdown :: "HuffmanNode list \<Rightarrow> nat \<Rightarrow> nat \<Rightarrow> HuffmanNode list" where
  "siftdown heap startpos pos =
     (let newitem = heap ! pos;
          (heap', pos') = siftdown_loop heap startpos newitem pos
      in heap'[pos' := newitem])"

function siftup_loop :: "HuffmanNode list \<Rightarrow> nat \<Rightarrow> nat \<Rightarrow> HuffmanNode list \<times> nat" where
  "siftup_loop heap endpos pos =
     (let childpos = 2 * pos + 1 in
      if childpos < endpos then
        (let rightpos = childpos + 1;
             childpos = (if rightpos < endpos \<and> \<not> node_lt (heap ! childpos) (heap ! rightpos)
                         then rightpos else childpos)
         in siftup_loop (heap[pos := heap ! childpos]) endpos childpos)
      else (heap, pos))"
  by pat_completeness auto
termination
  by (relation "measure (\<lambda>(heap, endpos, pos). endpos - pos)") (auto simp: Let_def)

declare siftup_loop.simps [simp del]

definition siftup :: "HuffmanNode list \<Rightarrow> nat \<Rightarrow> HuffmanNode list" where
  "siftup heap pos =
     (let endpos = length heap;
          startpos = pos;
          newitem = heap ! pos;
          (heap', pos') = siftup_loop heap endpos pos
      in siftdown (heap'[pos' := newitem]) startpos pos')"

definition heappush :: "HuffmanNode list \<Rightarrow> HuffmanNode \<Rightarrow> HuffmanNode list" where
  "heappush heap item = (let heap' = heap @ [item] in siftdown heap' 0 (length heap' - 1))"

definition heappop :: "HuffmanNode list \<Rightarrow> py_error + (HuffmanNode \<times> HuffmanNode list)" where
  "heappop heap =
     (if heap = [] then Inl IndexError
      else (let lastelt = last heap; heap' = butlast heap in
            if heap' \<noteq> [] then
              (let returnitem = heap' ! 0 in Inr (returnitem, siftup (heap'[0 := lastelt]) 0))
            else Inr (lastelt, heap')))"

section \<open>Building the tree\<close>

definition merge_nodes :: "HuffmanNode \<Rightarrow> HuffmanNode \<Rightarrow> HuffmanNode" where
  "merge_nodes node1 node2 = HuffmanNode None (freq node1 + freq node2) (Some node1) (Some node2)"

text \<open>One pass through the body of the \<^verbatim>\<open>while len(heap) > 1\<close> loop.\<close>

definition merge_step :: "HuffmanNode list \<Rightarrow> py_error + HuffmanNode list" where
  "merge_step heap =
     (case heappop heap of
        Inl e \<Rightarrow> Inl e
      | Inr (node1, heap1) \<Rightarrow>
          (case heappop heap1 of
             Inl e \<Rightarrow> Inl e
           | Inr (node2, heap2) \<Rightarrow> Inr (heappush heap2 (merge_nodes node1 node2))))"

definition push_leaf :: "HuffmanNode list \<Rightarrow> pyval \<times> int \<Rightarrow> HuffmanNode list" where
  "push_leaf heap item = heappush heap (HuffmanNode (Some (fst item)) (snd item) None None)"

definition initial_heap :: "(pyval, int) dict \<Rightarrow> HuffmanNode list" where
  "initial_heap frequency_table = foldl push_leaf [] frequency_table"

lemma length_siftdown_loop:
  "siftdown_loop heap startpos newitem pos = (heap', pos') \<Longrightarrow> length heap' = length heap"
proof (induction heap startpos newitem pos rule: siftdown_loop.induct)
  case (1 heap startpos newitem pos)
  then show ?case
    by (subst (asm) (2) siftdown_loop.simps) (auto simp: Let_def split: if_splits)
qed

lemma length_siftdown [simp]: "length (siftdown heap startpos pos) = length heap"
proof -
  obtain heap' pos' where l: "siftdown_loop heap startpos (heap ! pos) pos = (heap', pos')"
    by (cases "siftdown_loop heap startpos (heap ! pos) pos")
  from length_siftdown_loop [OF l] l show ?thesis
    by (simp add: siftdown_def)
qed

lemma length_siftup_loop:
  "siftup_loop heap endpos pos = (heap', pos') \<Longrightarrow> length heap' = length heap"
proof (induction heap endpos pos rule: siftup_loop.induct)
  case (1 heap endpos pos)
  then show ?case
    by (subst (asm) (2) siftup_loop.simps) (auto simp: Let_def split: if_splits)
qed

lemma length_siftup [simp]: "length (siftup heap pos) = length heap"
proof -
  obtain heap' pos' where l: "siftup_loop heap (length heap) pos = (heap', pos')"
    by (cases "siftup_loop heap (length heap) pos")
  from length_siftup_loop [OF l] l show ?thesis
    by (simp add: siftup_def)
qed

lemma length_heappush [simp]: "length (heappush heap item) = Suc (length heap)"
  by (simp add: heappush_def Let_def)

lemma length_heappop:
  "heappop heap = Inr (item, heap') \<Longrightarrow> Suc (length heap') = length heap"
  by (cases heap rule: rev_cases) (auto simp: heappop_def Let_def split: if_splits)

lemma length_merge_step:
  assumes "merge_step heap = Inr heap'"
  shows "Suc (length heap') = length heap"
proof -
  from assms obtain node1 heap1 node2 heap2 where
    p1: "heappop heap = Inr (node1, heap1)" and
    p2: "heappop heap1 = Inr (node2, heap2)" and
    h: "heap' = heappush heap2 (merge_nodes node1 node2)"
    by (auto simp: merge_step_def split: sum.splits)
  from length_heappop [OF p1] length_heappop [OF p2] h show ?thesis
    by simp
qed

function merge_loop :: "HuffmanNode list \<Rightarrow> py_error + HuffmanNode list" where
  "merge_loop heap =
     (if length heap > 1 then
        (case merge_step heap of Inl e \<Rightarrow> Inl e | Inr heap' \<Rightarrow> merge_loop heap')
      else Inr heap)"
  by pat_completeness auto
termination
proof (relation "measure length")
  show "wf (measure length)" by simp
next
  fix heap :: "HuffmanNode list" and heap'
  assume "merge_step heap = Inr heap'"
  from length_merge_step [OF this] show "(heap', heap) \<in> measure length"
    by simp
qed

declare merge_loop.simps [simp del]

text \<open>
  \<^verbatim>\<open>build_huffman_tree\<close> returns what it printed and its return value: on an empty heap it
  prints the error line and returns \<^verbatim>\<open>None\<close>.
\<close>

definition build_huffman_tree ::
  "(pyval, int) dict \<Rightarrow> py_error + (message list \<times> HuffmanNode option)" where
  "build_huffman_tree frequency_table =
     (case merge_loop (initial_heap frequency_table) of
        Inl e \<Rightarrow> Inl e
      | Inr heap \<Rightarrow>
          if length heap = 0 then Inr ([EmptyAlphabet], None)
          else Inr ([], Some (heap ! 0)))"

section \<open>The code table\<close>

fun build_encoding_helper ::
  "HuffmanNode option \<Rightarrow> string \<Rightarrow> (pyval, string) dict \<Rightarrow> (pyval, string) dict" where
  "build_encoding_helper None code encoding_table = encoding_table"
| "build_encoding_helper (Some (HuffmanNode c f l r)) code encoding_table =
     (let table1 = (case c of None \<Rightarrow> encoding_table
                            | Some ch \<Rightarrow> dict_set encoding_table ch code);
          table2 = build_encoding_helper l (code @ ''0'') table1
      in build_encoding_helper r (code @ ''1'') table2)"

definition build_encoding_table :: "HuffmanNode option \<Rightarrow> (pyval, string) dict" where
  "build_encoding_table huffman_tree = build_encoding_helper huffman_tree [] []"

section \<open>Compression\<close>

text \<open>
  \<^verbatim>\<open>bytes.rstrip()\<close> without an argument removes trailing ASCII whitespace: space, tab,
  newline, carriage return, vertical tab and form feed.
\<close>

definition is_ascii_whitespace :: "byte \<Rightarrow> bool" where
  "is_ascii_whitespace b = (b = 32 \<or> b = 9 \<or> b = 10 \<or> b = 13 \<or> b = 11 \<or> b = 12)"

definition rstrip :: "byte list \<Rightarrow> byte list" where
  "rstrip data = rev (dropWhile is_ascii_whitespace (rev data))"

text \<open>Iterating over \<^verbatim>\<open>bytes\<close> yields integers between 0 and 255.\<close>

definition iter_bytes :: "byte list \<Rightarrow> pyval list" where
  "iter_bytes data = map (\<lambda>b. PyInt (uint b)) data"

text \<open>\<^verbatim>\<open>''.join(encoding_table[char] for char in data)\<close>; a missing key raises \<^verbatim>\<open>KeyError\<close>.\<close>

fun join_codes :: "(pyval, string) dict \<Rightarrow> pyval list \<Rightarrow> py_error + string" where
  "join_codes encoding_table [] = Inr []"
| "join_codes encoding_table (c # cs) =
     (case dict_item encoding_table c of
        Inl e \<Rightarrow> Inl e
      | Inr code \<Rightarrow>
          (case join_codes encoding_table cs of
             Inl e \<Rightarrow> Inl e
           | Inr rest \<Rightarrow> Inr (code @ rest)))"

text \<open>
  \<^verbatim>\<open>int(byte, 2)\<close> on a non-empty string of the digits 0 and 1 is its value in base two.
  \<^verbatim>\<open>compress_file\<close> passes no other string; on any other string the model reports
  \<^verbatim>\<open>ValueError\<close>, as Python does for the empty string and for a character that is no digit.
\<close>

fun int2_digits :: "nat \<Rightarrow> string \<Rightarrow> py_error + nat" where
  "int2_digits n [] = Inr n"
| "int2_digits n (c # cs) =
     (if c = CHR ''0'' then int2_digits (2 * n) cs
      else if c = CHR ''1'' then int2_digits (2 * n + 1) cs
      else Inl ValueError)"

definition int2 :: "string \<Rightarrow> py_error + nat" where
  "int2 s = (if s = [] then Inl ValueError else int2_digits 0 s)"

text \<open>\<^verbatim>\<open>bytes([n])\<close> and \<^verbatim>\<open>bytearray.append(n)\<close> raise \<^verbatim>\<open>ValueError\<close> outside \<^verbatim>\<open>range(256)\<close>.\<close>

definition to_byte :: "nat \<Rightarrow> py_error + byte" where
  "to_byte n = (if n < 256 then Inr (of_nat n) else Inl ValueError)"

text \<open>The loop \<^verbatim>\<open>for i in range(0, len(encoded_data), 8)\<close>, on the part from \<open>i\<close> on.\<close>

function pack_bytes :: "string \<Rightarrow> py_error + byte list" where
  "pack_bytes encoded_data =
     (if encoded_data = [] then Inr []
      else (case int2 (take 8 encoded_data) of
              Inl e \<Rightarrow> Inl e
            | Inr n \<Rightarrow>
                (case to_byte n of
                   Inl e \<Rightarrow> Inl e
                 | Inr b \<Rightarrow>
                     (case pack_bytes (drop 8 encoded_data) of
                        Inl e \<Rightarrow> Inl e
                      | Inr byte_array \<Rightarrow> Inr (b # byte_array)))))"
  by pat_completeness auto
termination
  by (relation "measure length") auto

declare pack_bytes.simps [simp del]

text \<open>
  \<^verbatim>\<open>compress_file\<close> from the frequency table on (\<open>data\<close> is what was read and stripped); the
  result is the content of the output file: the padding byte, then the packed bytes.
\<close>

definition compress_data :: "byte list \<Rightarrow> py_error + byte list" where
  "compress_data data =
     (let frequency_table = build_frequency_table (iter_bytes data) in
      case build_huffman_tree frequency_table of
        Inl e \<Rightarrow> Inl e
      | Inr (printed, huffman_tree) \<Rightarrow>
          (let encoding_table = build_encoding_table huffman_tree in
           case join_codes encoding_table (iter_bytes data) of
             Inl e \<Rightarrow> Inl e
           | Inr encoded_data \<Rightarrow>
               (let padding = 8 - length encoded_data mod 8;
                    encoded_data = encoded_data @ replicate padding (CHR ''0'')
                in case pack_bytes encoded_data of
                     Inl e \<Rightarrow> Inl e
                   | Inr byte_array \<Rightarrow>
                       (case to_byte padding of
                          Inl e \<Rightarrow> Inl e
                        | Inr header \<Rightarrow> Inr (header # byte_array)))))"

definition compress_file :: "byte list \<Rightarrow> py_error + byte list" where
  "compress_file file_content = compress_data (rstrip file_content)"

section \<open>Decompression\<close>

text \<open>
  \<^verbatim>\<open>format(byte, '08b')\<close> for a byte: eight binary digits, the most significant first;
  \<open>bin_str k n\<close> is the digits of \<open>n\<close> for the powers \<open>k - 1\<close> down to 0.
\<close>

fun bin_str :: "nat \<Rightarrow> nat \<Rightarrow> string" where
  "bin_str 0 n = []"
| "bin_str (Suc k) n = (if (n div 2 ^ k) mod 2 = 1 then CHR ''1'' else CHR ''0'') # bin_str k n"

definition format_08b :: "byte \<Rightarrow> string" where
  "format_08b b = bin_str 8 (unat b)"

text \<open>
  The slice \<^verbatim>\<open>s[:-n]\<close> for \<open>n \<ge> 0\<close>: \<^verbatim>\<open>s[:-0]\<close> is \<^verbatim>\<open>s[:0]\<close>, the empty string, and a
  count beyond the length leaves nothing.
\<close>

definition slice_to_minus :: "string \<Rightarrow> nat \<Rightarrow> string" where
  "slice_to_minus s n = (if n = 0 then [] else take (length s - n) s)"

text \<open>
  The decoding loop, from the state (\<open>current_code\<close>, \<open>decoded_data\<close>) over the remaining
  bits; it returns both variables as they are when the bits are exhausted. The test
  \<^verbatim>\<open>current_code in encoding_table\<close> looks the string up among the keys of the table.
\<close>

fun decode_loop ::
  "(pyval, string) dict \<Rightarrow> string \<Rightarrow> string \<Rightarrow> string \<Rightarrow> string \<times> string" where
  "decode_loop encoding_table current_code decoded_data [] = (decoded_data, current_code)"
| "decode_loop encoding_table current_code decoded_data (b # bits) =
     (let current_code = current_code @ [b] in
      case map_of encoding_table (PyStr current_code) of
        Some ch \<Rightarrow> decode_loop encoding_table [] (decoded_data @ ch) bits
      | None \<Rightarrow> decode_loop encoding_table current_code decoded_data bits)"

text \<open>
  Reading the artifact: \<^verbatim>\<open>int.from_bytes(file.read(1))\<close> is 0 on an empty file; the rest is
  expanded to bits and cut by \<^verbatim>\<open>[:-padding]\<close>.
\<close>

definition read_padding :: "byte list \<Rightarrow> nat" where
  "read_padding file_content = (case file_content of [] \<Rightarrow> 0 | b # _ \<Rightarrow> unat b)"

definition expand_payload :: "byte list \<Rightarrow> string" where
  "expand_payload file_content = concat (map format_08b (drop 1 file_content))"

definition read_bits :: "byte list \<Rightarrow> string" where
  "read_bits file_content =
     slice_to_minus (expand_payload file_content) (read_padding file_content)"

text \<open>
  \<^verbatim>\<open>decompress_file\<close>: without a table it prints an error and writes nothing; otherwise the
  result is the text written to the output file. The values of the table are strings
  (\<^verbatim>\<open>decoded_data += char\<close>).
\<close>

definition decompress_file :: "byte list \<Rightarrow> (pyval, string) dict option \<Rightarrow> message + string" where
  "decompress_file file_content encoding_table =
     (case encoding_table of
        None \<Rightarrow> Inl NoTable
      | Some table \<Rightarrow> Inr (fst (decode_loop table [] [] (read_bits file_content))))"

text \<open>
  The \<^verbatim>\<open>-d\<close> branch of \<^verbatim>\<open>main\<close>: the table is rebuilt from the stripped bytes of the file
  named on the command line, and that same file is decoded.
\<close>

definition rebuild_table :: "byte list \<Rightarrow> py_error + (pyval, string) dict" where
  "rebuild_table file_content =
     (case build_huffman_tree (build_frequency_table (iter_bytes (rstrip file_content))) of
        Inl e \<Rightarrow> Inl e
      | Inr (printed, huffman_tree) \<Rightarrow> Inr (build_encoding_table huffman_tree))"

definition main_decompress :: "byte list \<Rightarrow> py_error + (message + string)" where
  "main_decompress file_content =
     (case rebuild_table file_content of
        Inl e \<Rightarrow> Inl e
      | Inr encoding_table \<Rightarrow> Inr (decompress_file file_content (Some encoding_table)))"

section \<open>The priority queue keeps its elements\<close>

lemma swap_update_mset:
  assumes "i < length xs" "j < length xs" "i \<noteq> j"
  shows "mset (xs[j := xs ! i, i := v]) = mset (xs[j := v])"
proof -
  let ?ls = "xs[j := v]"
  have "mset (?ls[j := ?ls ! i, i := ?ls ! j]) = mset ?ls"
    using assms by (intro mset_swap) simp_all
  moreover have "?ls[j := ?ls ! i, i := ?ls ! j] = xs[j := xs ! i, i := v]"
    using assms by simp
  ultimately show ?thesis by simp
qed

lemma siftdown_loop_mset:
  "pos < length heap \<Longrightarrow> siftdown_loop heap startpos newitem pos = (heap', pos') \<Longrightarrow>
   pos' < length heap \<and> mset (heap'[pos' := newitem]) = mset (heap[pos := newitem])"
proof (induction heap startpos newitem pos rule: siftdown_loop.induct)
  case (1 heap startpos newitem pos)
  show ?case
  proof (cases "pos > startpos \<and> node_lt newitem (heap ! ((pos - 1) div 2))")
    case True
    let ?pp = "(pos - 1) div 2"
    from True have pp: "?pp < pos" by arith
    from True "1.prems"(2)
    have l: "siftdown_loop (heap[pos := heap ! ?pp]) startpos newitem ?pp = (heap', pos')"
      by (subst (asm) siftdown_loop.simps) (simp add: Let_def)
    from True have c1: "startpos < pos" and c2: "node_lt newitem (heap ! ?pp)" by simp_all
    have "pos' < length (heap[pos := heap ! ?pp]) \<and>
          mset (heap'[pos' := newitem]) = mset (heap[pos := heap ! ?pp, ?pp := newitem])"
      using "1.IH" [OF c1 refl refl c2 _ l] pp "1.prems"(1) by simp
    moreover have "mset (heap[pos := heap ! ?pp, ?pp := newitem]) = mset (heap[pos := newitem])"
      using pp "1.prems"(1) by (intro swap_update_mset) simp_all
    ultimately show ?thesis by simp
  next
    case False
    with "1.prems" show ?thesis
      by (subst (asm) siftdown_loop.simps) (auto simp: Let_def split: if_splits)
  qed
qed

lemma mset_siftdown:
  assumes "pos < length heap"
  shows "mset (siftdown heap startpos pos) = mset heap"
proof -
  obtain heap' pos' where l: "siftdown_loop heap startpos (heap ! pos) pos = (heap', pos')"
    by (cases "siftdown_loop heap startpos (heap ! pos) pos")
  from siftdown_loop_mset [OF assms l] l show ?thesis
    by (simp add: siftdown_def)
qed

lemma siftup_loop_mset:
  "pos < length heap \<Longrightarrow> endpos = length heap \<Longrightarrow> siftup_loop heap endpos pos = (heap', pos') \<Longrightarrow>
   pos' < length heap \<and> mset (heap'[pos' := newitem]) = mset (heap[pos := newitem])"
proof (induction heap endpos pos rule: siftup_loop.induct)
  case (1 heap endpos pos)
  show ?case
  proof (cases "2 * pos + 1 < endpos")
    case True
    define c where "c = (if 2 * pos + 1 + 1 < endpos \<and> \<not> node_lt (heap ! (2 * pos + 1)) (heap ! (2 * pos + 1 + 1))
                         then 2 * pos + 1 + 1 else 2 * pos + 1)"
    from True have c: "pos < c" "c < endpos" by (auto simp: c_def)
    from True have "siftup_loop heap endpos pos = siftup_loop (heap[pos := heap ! c]) endpos c"
      by (subst siftup_loop.simps) (auto simp: Let_def c_def)
    with "1.prems"(3)
    have l: "siftup_loop (heap[pos := heap ! c]) endpos c = (heap', pos')"
      by simp
    have "pos' < length (heap[pos := heap ! c]) \<and>
          mset (heap'[pos' := newitem]) = mset (heap[pos := heap ! c, c := newitem])"
      using "1.IH" [OF refl True refl c_def _ _ l] c "1.prems" by simp
    moreover have "mset (heap[pos := heap ! c, c := newitem]) = mset (heap[pos := newitem])"
      using c "1.prems" by (intro swap_update_mset) simp_all
    ultimately show ?thesis by simp
  next
    case False
    with "1.prems" show ?thesis
      by (subst (asm) siftup_loop.simps) (auto simp: Let_def split: if_splits)
  qed
qed

lemma mset_siftup:
  assumes "pos < length heap"
  shows "mset (siftup heap pos) = mset heap"
proof -
  obtain heap' pos' where l: "siftup_loop heap (length heap) pos = (heap', pos')"
    by (cases "siftup_loop heap (length heap) pos")
  from siftup_loop_mset [OF assms refl l, of "heap ! pos"] length_siftup_loop [OF l] l
  show ?thesis
    by (simp add: siftup_def mset_siftdown)
qed

lemma mset_heappush: "mset (heappush heap item) = add_mset item (mset heap)"
  by (simp add: heappush_def mset_siftdown)

lemma mset_heappop:
  assumes "heappop heap = Inr (item, heap')"
  shows "mset heap = add_mset item (mset heap')"
proof (cases heap rule: rev_cases)
  case Nil
  with assms show ?thesis by (simp add: heappop_def)
next
  case (snoc ys y)
  show ?thesis
  proof (cases ys)
    case Nil
    with snoc assms show ?thesis by (auto simp: heappop_def)
  next
    case (Cons z zs)
    with snoc assms have "item = z" "heap' = siftup (y # zs) 0"
      by (auto simp: heappop_def)
    with snoc Cons show ?thesis by (simp add: mset_siftup)
  qed
qed

lemma heappop_nonempty: "heap \<noteq> [] \<Longrightarrow> \<exists>item heap'. heappop heap = Inr (item, heap')"
  by (simp add: heappop_def Let_def)

section \<open>The trees that the loop builds\<close>

text \<open>
  \<open>entries t code\<close> lists, in the order of the traversal of \<^verbatim>\<open>build_encoding_helper\<close>, every
  node of \<open>t\<close> that carries a symbol, with its frequency and the code accumulated on the way
  down from a root reached with \<open>code\<close>. \<open>wf_tree\<close> says that a node is either a leaf with a
  symbol and no children, or has no symbol, two children and the sum of their frequencies.
\<close>

fun entries :: "HuffmanNode \<Rightarrow> string \<Rightarrow> (pyval \<times> int \<times> string) list" where
  "entries (HuffmanNode c f l r) code =
     (case c of None \<Rightarrow> [] | Some ch \<Rightarrow> [(ch, f, code)])
     @ (case l of None \<Rightarrow> [] | Some a \<Rightarrow> entries a (code @ ''0''))
     @ (case r of None \<Rightarrow> [] | Some b \<Rightarrow> entries b (code @ ''1''))"

fun wf_tree :: "HuffmanNode \<Rightarrow> bool" where
  "wf_tree (HuffmanNode c f l r) =
     (case l of
        None \<Rightarrow> c \<noteq> None \<and> r = None
      | Some a \<Rightarrow>
          (case r of
             None \<Rightarrow> False
           | Some b \<Rightarrow> c = None \<and> f = freq a + freq b \<and> wf_tree a \<and> wf_tree b))"

fun nodes_of :: "HuffmanNode \<Rightarrow> HuffmanNode list" where
  "nodes_of (HuffmanNode c f l r) =
     HuffmanNode c f l r
     # (case l of None \<Rightarrow> [] | Some a \<Rightarrow> nodes_of a)
     @ (case r of None \<Rightarrow> [] | Some b \<Rightarrow> nodes_of b)"

definition is_leaf :: "HuffmanNode \<Rightarrow> bool" where
  "is_leaf n = (left n = None \<and> right n = None)"

lemma update_fresh: "k \<notin> fst ` set al \<Longrightarrow> AList.update k v al = al @ [(k, v)]"
  by (induction al) auto

lemma helper_entries:
  "distinct (map fst (entries t code)) \<Longrightarrow> fst ` set (entries t code) \<inter> fst ` set tbl = {} \<Longrightarrow>
   build_encoding_helper (Some t) code tbl = tbl @ map (\<lambda>(s, f, c). (s, c)) (entries t code)"
proof (induction t code arbitrary: tbl rule: entries.induct)
  case (1 c f l r code)
  let ?e0 = "case c of None \<Rightarrow> [] | Some ch \<Rightarrow> [(ch, f, code)]"
  let ?el = "case l of None \<Rightarrow> [] | Some a \<Rightarrow> entries a (code @ ''0'')"
  let ?er = "case r of None \<Rightarrow> [] | Some b \<Rightarrow> entries b (code @ ''1'')"
  let ?p = "\<lambda>(s, f, c). (s, c)"
  have fst_p: "\<And>es. fst ` set (map ?p es) = fst ` set es" by force
  from "1.prems"(1) have D: "distinct (map fst (?e0 @ ?el @ ?er))"
    by simp
  from D have dl: "distinct (map fst ?el)" and dr: "distinct (map fst ?er)"
    and i01: "fst ` set ?e0 \<inter> fst ` set ?el = {}"
    and i02: "fst ` set ?e0 \<inter> fst ` set ?er = {}"
    and i12: "fst ` set ?el \<inter> fst ` set ?er = {}"
    by (simp_all add: Int_Un_distrib)
  from "1.prems"(2) have J: "fst ` set (?e0 @ ?el @ ?er) \<inter> fst ` set tbl = {}"
    by simp
  from J have j0: "fst ` set ?e0 \<inter> fst ` set tbl = {}"
    and j1: "fst ` set ?el \<inter> fst ` set tbl = {}"
    and j2: "fst ` set ?er \<inter> fst ` set tbl = {}"
    by (simp_all add: image_Un Int_Un_distrib2)
  define t1 where "t1 = (case c of None \<Rightarrow> tbl | Some ch \<Rightarrow> dict_set tbl ch code)"
  have t1: "t1 = tbl @ map ?p ?e0"
    using j0 by (auto simp: t1_def dict_set_def update_fresh split: option.splits)
  have k1: "fst ` set t1 = fst ` set tbl \<union> fst ` set ?e0"
    unfolding t1 by (simp add: image_Un fst_p del: set_map)
  define t2 where "t2 = build_encoding_helper l (code @ ''0'') t1"
  have t2: "t2 = t1 @ map ?p ?el"
  proof (cases l)
    case None
    then show ?thesis by (simp add: t2_def)
  next
    case (Some a)
    have "build_encoding_helper (Some a) (code @ ''0'') t1 = t1 @ map ?p (entries a (code @ ''0''))"
    proof (rule "1.IH"(1) [OF Some])
      show "distinct (map fst (entries a (code @ ''0'')))"
        using dl Some by simp
      show "fst ` set (entries a (code @ ''0'')) \<inter> fst ` set t1 = {}"
        using j1 i01 Some unfolding k1 by (simp add: Int_Un_distrib Int_commute)
    qed
    with Some show ?thesis by (simp add: t2_def)
  qed
  have k2: "fst ` set t2 = fst ` set tbl \<union> fst ` set ?e0 \<union> fst ` set ?el"
    unfolding t2 using k1 by (simp add: image_Un fst_p del: set_map)
  have t3: "build_encoding_helper r (code @ ''1'') t2 = t2 @ map ?p ?er"
  proof (cases r)
    case None
    then show ?thesis by simp
  next
    case (Some b)
    have "build_encoding_helper (Some b) (code @ ''1'') t2 = t2 @ map ?p (entries b (code @ ''1''))"
    proof (rule "1.IH"(2) [OF Some])
      show "distinct (map fst (entries b (code @ ''1'')))"
        using dr Some by simp
      show "fst ` set (entries b (code @ ''1'')) \<inter> fst ` set t2 = {}"
        using j2 i02 i12 Some unfolding k2 by (simp add: Int_Un_distrib Int_commute)
    qed
    with Some show ?thesis by simp
  qed
  have "build_encoding_helper (Some (HuffmanNode c f l r)) code tbl
        = build_encoding_helper r (code @ ''1'') t2"
    by (simp add: t1_def t2_def Let_def)
  also have "\<dots> = t2 @ map ?p ?er"
    by (rule t3)
  also have "\<dots> = tbl @ map ?p (?e0 @ ?el @ ?er)"
    by (simp add: t2 t1)
  finally show ?case
    by simp
qed


definition leaf_items :: "HuffmanNode \<Rightarrow> (pyval \<times> int) list" where
  "leaf_items t = map (\<lambda>(s, f, c). (s, f)) (entries t [])"

lemma entries_items: "map (\<lambda>(s, f, c). (s, f)) (entries t code) = leaf_items t"
proof -
  have "map (\<lambda>(s, f, c). (s, f)) (entries t code) = map (\<lambda>(s, f, c). (s, f)) (entries t code')"
    for code'
  proof (induction t code arbitrary: code' rule: entries.induct)
    case (1 c f l r code)
    show ?case
      using "1.IH"(1) [of _ "code' @ ''0''"] "1.IH"(2) [of _ "code' @ ''1''"]
      by (simp split: option.splits)
  qed
  then show ?thesis by (simp add: leaf_items_def)
qed

lemma leaf_items_leaf [simp]: "leaf_items (HuffmanNode (Some c) f None None) = [(c, f)]"
  by (simp add: leaf_items_def)

lemma leaf_items_merge [simp]:
  "leaf_items (merge_nodes a b) = leaf_items a @ leaf_items b"
  by (simp add: merge_nodes_def leaf_items_def [of "HuffmanNode _ _ _ _"] entries_items)

definition forest_items :: "HuffmanNode multiset \<Rightarrow> (pyval \<times> int) multiset" where
  "forest_items M = (\<Sum>t\<in>#M. mset (leaf_items t))"

lemma merge_step_total:
  assumes "1 < length heap"
  shows "\<exists>node1 heap1 node2 heap2.
           heappop heap = Inr (node1, heap1) \<and> heappop heap1 = Inr (node2, heap2) \<and>
           merge_step heap = Inr (heappush heap2 (merge_nodes node1 node2))"
proof -
  from assms have "heap \<noteq> []" by auto
  from heappop_nonempty [OF this] obtain node1 heap1 where
    p1: "heappop heap = Inr (node1, heap1)" by blast
  from length_heappop [OF p1] assms have "heap1 \<noteq> []" by auto
  from heappop_nonempty [OF this] obtain node2 heap2 where
    p2: "heappop heap1 = Inr (node2, heap2)" by blast
  from p1 p2 show ?thesis by (simp add: merge_step_def)
qed

lemma merge_step_mset:
  assumes "merge_step heap = Inr heap'"
  shows "\<exists>node1 node2 R. mset heap = add_mset node1 (add_mset node2 R) \<and>
           mset heap' = add_mset (merge_nodes node1 node2) R"
proof -
  from assms obtain node1 heap1 node2 heap2 where
    p1: "heappop heap = Inr (node1, heap1)" and
    p2: "heappop heap1 = Inr (node2, heap2)" and
    h: "heap' = heappush heap2 (merge_nodes node1 node2)"
    by (auto simp: merge_step_def split: sum.splits)
  from mset_heappop [OF p1] mset_heappop [OF p2] h show ?thesis
    by (auto simp: mset_heappush)
qed

lemma merge_loop_invariant:
  assumes "P heap"
    and step: "\<And>h h'. P h \<Longrightarrow> 1 < length h \<Longrightarrow> merge_step h = Inr h' \<Longrightarrow> P h'"
  shows "\<exists>h'. merge_loop heap = Inr h' \<and> P h' \<and> length h' \<le> 1 \<and> (heap \<noteq> [] \<longrightarrow> length h' = 1)"
  using assms(1)
proof (induction heap rule: merge_loop.induct)
  case (1 heap)
  show ?case
  proof (cases "1 < length heap")
    case True
    from merge_step_total [OF True] obtain h1 where m: "merge_step heap = Inr h1" by blast
    from length_merge_step [OF m] True have ne: "h1 \<noteq> []" by auto
    from "1.IH" [OF True m step [OF "1.prems" True m]] ne
    obtain h' where "merge_loop h1 = Inr h'" "P h'" "length h' \<le> 1" "length h' = 1"
      by blast
    moreover have "merge_loop heap = merge_loop h1"
      using True m by (subst merge_loop.simps) simp
    ultimately show ?thesis by simp
  next
    case False
    then have "merge_loop heap = Inr heap"
      by (subst merge_loop.simps) simp
    with False "1.prems" show ?thesis
      by (cases heap) auto
  qed
qed

definition forest_inv :: "(pyval, int) dict \<Rightarrow> HuffmanNode list \<Rightarrow> bool" where
  "forest_inv ft heap = ((\<forall>t\<in>set heap. wf_tree t) \<and> forest_items (mset heap) = mset ft)"

lemma wf_tree_merge: "wf_tree a \<Longrightarrow> wf_tree b \<Longrightarrow> wf_tree (merge_nodes a b)"
  by (simp add: merge_nodes_def)

lemma forest_inv_step:
  assumes "forest_inv ft h" "merge_step h = Inr h'"
  shows "forest_inv ft h'"
proof -
  from merge_step_mset [OF assms(2)] obtain n1 n2 R where
    m: "mset h = add_mset n1 (add_mset n2 R)" "mset h' = add_mset (merge_nodes n1 n2) R"
    by blast
  from assms(1) have wf: "\<forall>t\<in>#mset h. wf_tree t" and fi: "forest_items (mset h) = mset ft"
    by (simp_all add: forest_inv_def)
  from wf m have "\<forall>t\<in>#mset h'. wf_tree t"
    by (auto simp: wf_tree_merge)
  moreover from fi m have "forest_items (mset h') = mset ft"
    by (simp add: forest_items_def add.assoc)
  ultimately show ?thesis by (simp add: forest_inv_def)
qed

lemma mset_initial_heap:
  "mset (initial_heap ft) = image_mset (\<lambda>(c, f). HuffmanNode (Some c) f None None) (mset ft)"
proof (induction ft rule: rev_induct)
  case Nil
  show ?case by (simp add: initial_heap_def)
next
  case (snoc x xs)
  then show ?case
    by (cases x) (simp add: initial_heap_def push_leaf_def mset_heappush)
qed

lemma length_initial_heap: "length (initial_heap ft) = length ft"
  using arg_cong [OF mset_initial_heap, of size ft] by simp

lemma forest_inv_initial: "forest_inv ft (initial_heap ft)"
proof -
  have "forest_items (mset (initial_heap ft)) = mset ft"
    unfolding mset_initial_heap forest_items_def
    by (induction ft) (auto simp: case_prod_beta)
  moreover have "\<forall>t\<in>#mset (initial_heap ft). wf_tree t"
    unfolding mset_initial_heap by auto
  ultimately show ?thesis by (simp add: forest_inv_def)
qed

lemma build_huffman_tree_result:
  assumes "ft \<noteq> []"
  shows "\<exists>t. build_huffman_tree ft = Inr ([], Some t) \<and> wf_tree t \<and> mset (leaf_items t) = mset ft"
proof -
  have ne: "initial_heap ft \<noteq> []"
    using length_initial_heap [of ft] assms by auto
  from merge_loop_invariant [of "forest_inv ft" "initial_heap ft", OF forest_inv_initial]
    forest_inv_step ne
  obtain h' where h': "merge_loop (initial_heap ft) = Inr h'" "forest_inv ft h'" "length h' = 1"
    by blast
  from h'(3) obtain t where t: "h' = [t]"
    by (cases h') auto
  from h'(2) t have "wf_tree t" "mset (leaf_items t) = mset ft"
    by (simp_all add: forest_inv_def forest_items_def)
  with h'(1) t show ?thesis
    by (simp add: build_huffman_tree_def)
qed

section \<open>What \<^verbatim>\<open>build_frequency_table\<close> returns\<close>

lemma map_of_count_char:
  "map_of (count_char d c) = (map_of d)(c \<mapsto> (case map_of d c of None \<Rightarrow> 1 | Some v \<Rightarrow> v + 1))"
  by (simp add: count_char_def dict_set_def dict_get_def update_conv' split: option.splits)

lemma distinct_count_char: "distinct (map fst d) \<Longrightarrow> distinct (map fst (count_char d c))"
  by (simp add: count_char_def dict_set_def distinct_update)

lemma keys_count_char: "fst ` set (count_char d c) = insert c (fst ` set d)"
  by (simp add: count_char_def dict_set_def dom_update)

lemma foldl_count_char:
  "distinct (map fst d) \<Longrightarrow>
   distinct (map fst (foldl count_char d xs))
   \<and> fst ` set (foldl count_char d xs) = fst ` set d \<union> set xs
   \<and> (\<forall>c. map_of (foldl count_char d xs) c =
           (case map_of d c of
              None \<Rightarrow> if c \<in> set xs then Some (int (count_list xs c)) else None
            | Some v \<Rightarrow> Some (v + int (count_list xs c))))"
proof (induction xs arbitrary: d)
  case Nil
  then show ?case by (simp split: option.splits)
next
  case (Cons x xs)
  from Cons.IH [OF distinct_count_char [OF Cons.prems], of x] show ?case
    by (auto simp: keys_count_char map_of_count_char split: option.splits)
qed

lemma build_frequency_table_props:
  "distinct (map fst (build_frequency_table data))"
  "fst ` set (build_frequency_table data) = set data"
  "map_of (build_frequency_table data) c =
     (if c \<in> set data then Some (int (count_list data c)) else None)"
  using foldl_count_char [of "[]" data] by (simp_all add: build_frequency_table_def)

lemma build_frequency_table_positive:
  "\<forall>(c, f)\<in>set (build_frequency_table data). 0 < f"
proof -
  have "0 < f" if "(c, f) \<in> set (build_frequency_table data)" for c f
  proof -
    from that build_frequency_table_props(1) [of data]
    have "map_of (build_frequency_table data) c = Some f" by simp
    then have "c \<in> set data" "f = int (count_list data c)"
      by (auto simp: build_frequency_table_props(3) split: if_splits)
    then show ?thesis
      using count_list_0_iff [of data c] by auto
  qed
  then show ?thesis by auto
qed

lemma build_frequency_table_empty_iff: "build_frequency_table data = [] \<longleftrightarrow> data = []"
  using build_frequency_table_props(2) [of data] by (metis image_is_empty set_empty)

section \<open>Prefix-freedom\<close>

lemma entries_prefix: "(s, f, c) \<in> set (entries t code) \<Longrightarrow> prefix code c"
proof (induction t code rule: entries.induct)
  case (1 ch fr l r code)
  from "1.prems" consider
      (here) "ch = Some s" "c = code"
    | (left) a where "l = Some a" "(s, f, c) \<in> set (entries a (code @ ''0''))"
    | (right) b where "r = Some b" "(s, f, c) \<in> set (entries b (code @ ''1''))"
    by (auto split: option.splits)
  then show ?case
  proof cases
    case here
    then show ?thesis by simp
  next
    case left
    from "1.IH"(1) [OF left] show ?thesis by (rule append_prefixD)
  next
    case right
    from "1.IH"(2) [OF right] show ?thesis by (rule append_prefixD)
  qed
qed

lemma branches_disagree:
  assumes "prefix (code @ ''0'') ca" "prefix (code @ ''1'') cb"
  shows "\<not> prefix ca cb" "\<not> prefix cb ca"
  using assms by (auto simp: prefix_def)

lemma entries_prefix_free:
  "wf_tree t \<Longrightarrow> (a, fa, ca) \<in> set (entries t code) \<Longrightarrow> (b, fb, cb) \<in> set (entries t code) \<Longrightarrow>
   a \<noteq> b \<Longrightarrow> \<not> prefix ca cb"
proof (induction t code rule: entries.induct)
  case (1 ch fr l r code)
  show ?case
  proof (cases l)
    case None
    with "1.prems" show ?thesis by (auto split: option.splits)
  next
    case (Some x)
    with "1.prems"(1) obtain y where r: "r = Some y" and ch: "ch = None"
      and wx: "wf_tree x" and wy: "wf_tree y"
      by (auto split: option.splits)
    from "1.prems"(2) Some r ch
    have A: "(a, fa, ca) \<in> set (entries x (code @ ''0'')) \<or> (a, fa, ca) \<in> set (entries y (code @ ''1''))"
      by simp
    from "1.prems"(3) Some r ch
    have B: "(b, fb, cb) \<in> set (entries x (code @ ''0'')) \<or> (b, fb, cb) \<in> set (entries y (code @ ''1''))"
      by simp
    from A B show ?thesis
    proof (elim disjE)
      assume "(a, fa, ca) \<in> set (entries x (code @ ''0''))" "(b, fb, cb) \<in> set (entries x (code @ ''0''))"
      then show ?thesis using "1.IH"(1) [OF Some wx] "1.prems"(4) by blast
    next
      assume "(a, fa, ca) \<in> set (entries y (code @ ''1''))" "(b, fb, cb) \<in> set (entries y (code @ ''1''))"
      then show ?thesis using "1.IH"(2) [OF r wy] "1.prems"(4) by blast
    next
      assume "(a, fa, ca) \<in> set (entries x (code @ ''0''))" "(b, fb, cb) \<in> set (entries y (code @ ''1''))"
      then show ?thesis using branches_disagree(1) entries_prefix by blast
    next
      assume "(a, fa, ca) \<in> set (entries y (code @ ''1''))" "(b, fb, cb) \<in> set (entries x (code @ ''0''))"
      then show ?thesis using branches_disagree(2) entries_prefix by blast
    qed
  qed
qed

lemma encoding_table_entries:
  assumes "distinct (map fst (leaf_items t))"
  shows "build_encoding_table (Some t) = map (\<lambda>(s, f, c). (s, c)) (entries t [])"
proof -
  have "map fst (entries t []) = map fst (leaf_items t)"
    by (simp add: leaf_items_def case_prod_beta)
  with assms have "distinct (map fst (entries t []))" by simp
  from helper_entries [OF this, of "[]"] show ?thesis
    by (simp add: build_encoding_table_def)
qed

lemma leaf_items_keys:
  assumes "mset (leaf_items t) = mset ft"
  shows "mset (map fst (leaf_items t)) = mset (map fst ft)"
  using arg_cong [OF assms, of "image_mset fst"] by simp

lemma tree_table:
  assumes "distinct (map fst ft)" "ft \<noteq> []"
  shows "\<exists>t. build_huffman_tree ft = Inr ([], Some t) \<and> wf_tree t
           \<and> mset (leaf_items t) = mset ft
           \<and> build_encoding_table (Some t) = map (\<lambda>(s, f, c). (s, c)) (entries t [])"
proof -
  from build_huffman_tree_result [OF assms(2)] obtain t where
    t: "build_huffman_tree ft = Inr ([], Some t)" "wf_tree t" "mset (leaf_items t) = mset ft"
    by blast
  from leaf_items_keys [OF t(3)] assms(1) have "distinct (map fst (leaf_items t))"
    by (metis mset_eq_imp_distinct_iff)
  from encoding_table_entries [OF this] t show ?thesis by blast
qed

text \<open>
  Claim C6. For a frequency table with distinct keys and at least two entries,
  \<^verbatim>\<open>build_huffman_tree\<close> returns a tree, the code table built from it has exactly the
  symbols of the frequency table as keys, and the code of no symbol is a prefix of the code
  of another symbol.
\<close>

theorem C6_prefix_free:
  assumes "distinct (map fst ft)" and "2 \<le> length ft"
  shows "\<exists>t. build_huffman_tree ft = Inr ([], Some t)
           \<and> fst ` set (build_encoding_table (Some t)) = fst ` set ft
           \<and> (\<forall>a ca b cb. (a, ca) \<in> set (build_encoding_table (Some t))
                \<longrightarrow> (b, cb) \<in> set (build_encoding_table (Some t))
                \<longrightarrow> a \<noteq> b \<longrightarrow> \<not> prefix ca cb)"
proof -
  from assms(2) have "ft \<noteq> []" by auto
  from tree_table [OF assms(1) this] obtain t where
    t: "build_huffman_tree ft = Inr ([], Some t)" "wf_tree t" "mset (leaf_items t) = mset ft"
       "build_encoding_table (Some t) = map (\<lambda>(s, f, c). (s, c)) (entries t [])"
    by blast
  have keys: "fst ` set (build_encoding_table (Some t)) = fst ` set ft"
  proof -
    have "fst ` set (build_encoding_table (Some t)) = set (map fst (leaf_items t))"
      unfolding t(4) by (force simp: leaf_items_def)
    also have "\<dots> = set (map fst ft)"
      using leaf_items_keys [OF t(3)] by (metis set_mset_mset)
    finally show ?thesis by simp
  qed
  have pf: "\<not> prefix ca cb"
    if "(a, ca) \<in> set (build_encoding_table (Some t))"
       "(b, cb) \<in> set (build_encoding_table (Some t))" "a \<noteq> b" for a ca b cb
  proof -
    from that(1) obtain fa where "(a, fa, ca) \<in> set (entries t [])"
      unfolding t(4) by auto
    moreover from that(2) obtain fb where "(b, fb, cb) \<in> set (entries t [])"
      unfolding t(4) by auto
    ultimately show ?thesis
      using entries_prefix_free [OF t(2)] that(3) by blast
  qed
  from t(1) keys pf show ?thesis by blast
qed


theorem C6_prefix_free_witness:
  "\<exists>t. build_huffman_tree [(PyInt 97, 3), (PyInt 98, 2), (PyInt 99, 1)] = Inr ([], Some t)
        \<and> fst ` set (build_encoding_table (Some t)) = {PyInt 97, PyInt 98, PyInt 99}
        \<and> (\<forall>a ca b cb. (a, ca) \<in> set (build_encoding_table (Some t))
             \<longrightarrow> (b, cb) \<in> set (build_encoding_table (Some t))
             \<longrightarrow> a \<noteq> b \<longrightarrow> \<not> prefix ca cb)"
proof -
  have h1: "distinct (map fst [(PyInt 97, 3), (PyInt 98, 2), (PyInt 99, 1)])"
    by simp
  have h2: "2 \<le> length [(PyInt 97, 3), (PyInt 98, 2), (PyInt 99, 1)]"
    by simp
  from C6_prefix_free [OF h1 h2] show ?thesis
    by simp
qed

section \<open>The invariants of the tree\<close>

lemma leaves_of_wf_tree:
  "wf_tree t \<Longrightarrow>
   map (\<lambda>n. (char n, freq n)) (filter is_leaf (nodes_of t))
     = map (\<lambda>(s, f). (Some s, f)) (leaf_items t)"
proof (induction t rule: nodes_of.induct)
  case (1 c f l r)
  show ?case
  proof (cases l)
    case None
    with "1.prems" show ?thesis
      by (auto simp: is_leaf_def leaf_items_def)
  next
    case (Some a)
    with "1.prems" obtain b where r: "r = Some b" and c: "c = None"
      and wa: "wf_tree a" and wb: "wf_tree b"
      by (auto split: option.splits)
    have "leaf_items (HuffmanNode c f l r) = leaf_items a @ leaf_items b"
      using Some r c by (simp add: leaf_items_def [of "HuffmanNode _ _ _ _"] entries_items)
    with "1.IH"(1) [OF Some wa] "1.IH"(2) [OF r wb] Some r show ?thesis
      by (simp add: is_leaf_def)
  qed
qed

lemma inner_nodes_of_wf_tree:
  "wf_tree t \<Longrightarrow> n \<in> set (nodes_of t) \<Longrightarrow> \<not> is_leaf n \<Longrightarrow>
   \<exists>l r. left n = Some l \<and> right n = Some r \<and> freq n = freq l + freq r"
proof (induction t rule: nodes_of.induct)
  case (1 c f l r)
  show ?case
  proof (cases l)
    case None
    with "1.prems" show ?thesis
      by (auto simp: is_leaf_def)
  next
    case (Some a)
    with "1.prems"(1) obtain b where r: "r = Some b" and f: "f = freq a + freq b"
      and wa: "wf_tree a" and wb: "wf_tree b"
      by (auto split: option.splits)
    from "1.prems"(2) Some r consider "n = HuffmanNode c f l r"
      | "n \<in> set (nodes_of a)" | "n \<in> set (nodes_of b)"
      by auto
    then show ?thesis
    proof cases
      case 1
      with Some r f show ?thesis by simp
    next
      case 2
      from "1.IH"(1) [OF Some wa 2 "1.prems"(3)] show ?thesis .
    next
      case 3
      from "1.IH"(2) [OF r wb 3 "1.prems"(3)] show ?thesis .
    qed
  qed
qed

lemma count_nodes_of_wf_tree:
  "wf_tree t \<Longrightarrow>
   Suc (length (filter (\<lambda>n. \<not> is_leaf n) (nodes_of t))) = length (filter is_leaf (nodes_of t))"
proof (induction t rule: nodes_of.induct)
  case (1 c f l r)
  show ?case
  proof (cases l)
    case None
    with "1.prems" show ?thesis
      by (auto simp: is_leaf_def)
  next
    case (Some a)
    with "1.prems"(1) obtain b where r: "r = Some b"
      and wa: "wf_tree a" and wb: "wf_tree b"
      by (auto split: option.splits)
    from "1.IH"(1) [OF Some wa] "1.IH"(2) [OF r wb] Some r show ?thesis
      by (simp add: is_leaf_def)
  qed
qed

text \<open>
  Claim C7. For a non-empty frequency table whose counts are positive, with \<open>k\<close> entries (the
  keys of a dictionary are distinct, so \<open>k\<close> is the number of distinct symbols),
  \<^verbatim>\<open>build_huffman_tree\<close> returns a tree in which every leaf has a positive frequency, every
  other node has two children and the sum of their frequencies, and there are \<open>k\<close> leaves
  and \<open>k - 1\<close> other nodes.
\<close>

theorem C7_tree_invariants:
  assumes "\<forall>(c, f)\<in>set ft. 0 < f" and "ft \<noteq> []"
  shows "\<exists>t. build_huffman_tree ft = Inr ([], Some t)
           \<and> (\<forall>n\<in>set (nodes_of t).
                 (is_leaf n \<longrightarrow> 0 < freq n) \<and>
                 (\<not> is_leaf n \<longrightarrow>
                    (\<exists>l r. left n = Some l \<and> right n = Some r \<and> freq n = freq l + freq r)))
           \<and> length (filter is_leaf (nodes_of t)) = length ft
           \<and> length (filter (\<lambda>n. \<not> is_leaf n) (nodes_of t)) = length ft - 1"
proof -
  from build_huffman_tree_result [OF assms(2)] obtain t where
    t: "build_huffman_tree ft = Inr ([], Some t)" "wf_tree t" "mset (leaf_items t) = mset ft"
    by blast
  let ?leaves = "filter is_leaf (nodes_of t)"
  have lv: "map (\<lambda>n. (char n, freq n)) ?leaves = map (\<lambda>(s, f). (Some s, f)) (leaf_items t)"
    by (rule leaves_of_wf_tree [OF t(2)])
  have len: "length ?leaves = length ft"
    using arg_cong [OF lv, of length] arg_cong [OF t(3), of size] by simp
  have pos: "0 < freq n" if "n \<in> set (nodes_of t)" "is_leaf n" for n
  proof -
    from that have "(char n, freq n) \<in> set (map (\<lambda>n. (char n, freq n)) ?leaves)"
      by auto
    then obtain s where "(s, freq n) \<in> set (leaf_items t)"
      unfolding lv by auto
    with t(3) have "(s, freq n) \<in> set ft"
      by (metis set_mset_mset)
    with assms(1) show ?thesis by auto
  qed
  from count_nodes_of_wf_tree [OF t(2)] len
  have inner: "length (filter (\<lambda>n. \<not> is_leaf n) (nodes_of t)) = length ft - 1"
    by simp
  from t(1) pos inner_nodes_of_wf_tree [OF t(2)] len inner show ?thesis
    by blast
qed


theorem C7_tree_invariants_witness:
  "\<exists>t. build_huffman_tree [(PyInt 97, 3), (PyInt 98, 2), (PyInt 99, 1)] = Inr ([], Some t)
        \<and> (\<forall>n\<in>set (nodes_of t).
              (is_leaf n \<longrightarrow> 0 < freq n) \<and>
              (\<not> is_leaf n \<longrightarrow>
                 (\<exists>l r. left n = Some l \<and> right n = Some r \<and> freq n = freq l + freq r)))
        \<and> length (filter is_leaf (nodes_of t)) = 3
        \<and> length (filter (\<lambda>n. \<not> is_leaf n) (nodes_of t)) = 2"
proof -
  have h1: "\<forall>(c, f)\<in>set [(PyInt 97, 3), (PyInt 98, 2), (PyInt 99, 1)]. (0::int) < f"
    by simp
  have h2: "[(PyInt 97, 3), (PyInt 98, 2), (PyInt 99, 1)] \<noteq> []"
    by simp
  from C7_tree_invariants [OF h1 h2] show ?thesis
    by (simp add: numeral_3_eq_3 numeral_2_eq_2)
qed

section \<open>The worked example\<close>

lemma example_frequencies:
  "build_frequency_table (iter_bytes [97, 97, 97, 98, 98, 99]) =
     [(PyInt 97, 3), (PyInt 98, 2), (PyInt 99, 1)]"
  by code_simp

lemma example_initial_heap:
  "initial_heap [(PyInt 97, 3), (PyInt 98, 2), (PyInt 99, 1)] =
     [HuffmanNode (Some (PyInt 99)) 1 None None,
      HuffmanNode (Some (PyInt 97)) 3 None None,
      HuffmanNode (Some (PyInt 98)) 2 None None]"
  by code_simp

lemma example_first_merge:
  "merge_step [HuffmanNode (Some (PyInt 99)) 1 None None,
               HuffmanNode (Some (PyInt 97)) 3 None None,
               HuffmanNode (Some (PyInt 98)) 2 None None] =
     Inr [HuffmanNode (Some (PyInt 97)) 3 None None,
          HuffmanNode None 3 (Some (HuffmanNode (Some (PyInt 99)) 1 None None))
                             (Some (HuffmanNode (Some (PyInt 98)) 2 None None))]"
  by code_simp

lemma example_second_merge:
  "merge_step [HuffmanNode (Some (PyInt 97)) 3 None None,
               HuffmanNode None 3 (Some (HuffmanNode (Some (PyInt 99)) 1 None None))
                                  (Some (HuffmanNode (Some (PyInt 98)) 2 None None))] =
     Inr [HuffmanNode None 6
            (Some (HuffmanNode (Some (PyInt 97)) 3 None None))
            (Some (HuffmanNode None 3 (Some (HuffmanNode (Some (PyInt 99)) 1 None None))
                                      (Some (HuffmanNode (Some (PyInt 98)) 2 None None))))]"
  by code_simp

lemma example_tree:
  "build_huffman_tree [(PyInt 97, 3), (PyInt 98, 2), (PyInt 99, 1)] =
     Inr ([], Some (HuffmanNode None 6
            (Some (HuffmanNode (Some (PyInt 97)) 3 None None))
            (Some (HuffmanNode None 3 (Some (HuffmanNode (Some (PyInt 99)) 1 None None))
                                      (Some (HuffmanNode (Some (PyInt 98)) 2 None None))))))"
  by code_simp

lemma example_codes:
  "build_encoding_table (Some (HuffmanNode None 6
            (Some (HuffmanNode (Some (PyInt 97)) 3 None None))
            (Some (HuffmanNode None 3 (Some (HuffmanNode (Some (PyInt 99)) 1 None None))
                                      (Some (HuffmanNode (Some (PyInt 98)) 2 None None)))))) =
     [(PyInt 97, ''0''), (PyInt 99, ''10''), (PyInt 98, ''11'')]"
  by code_simp

lemma example_bits:
  "join_codes [(PyInt 97, ''0''), (PyInt 99, ''10''), (PyInt 98, ''11'')]
     (iter_bytes [97, 97, 97, 98, 98, 99]) = Inr ''000111110''"
  by code_simp

lemma example_artifact: "compress_file [97, 97, 97, 98, 98, 99] = Inr [7, 31, 0]"
  by code_simp

text \<open>
  Claim C9. For the input \<^verbatim>\<open>b"aaabbc"\<close> (bytes 97, 97, 97, 98, 98, 99) the frequencies are
  a:3, b:2, c:1; the first pass of the loop merges c (left) and b (right) into a node of
  frequency 3, the second merges a (left) with that node (right) into the root of frequency
  6; the codes are a: 0, c: 10, b: 11; the bit-string is 000111110 (9 bits); the file
  written is the header byte 7 followed by the two payload bytes 31 and 0.
\<close>

theorem C9_example_aaabbc:
  "build_frequency_table (iter_bytes [97, 97, 97, 98, 98, 99]) =
     [(PyInt 97, 3), (PyInt 98, 2), (PyInt 99, 1)]
   \<and> initial_heap [(PyInt 97, 3), (PyInt 98, 2), (PyInt 99, 1)] =
     [HuffmanNode (Some (PyInt 99)) 1 None None,
      HuffmanNode (Some (PyInt 97)) 3 None None,
      HuffmanNode (Some (PyInt 98)) 2 None None]
   \<and> merge_step [HuffmanNode (Some (PyInt 99)) 1 None None,
                 HuffmanNode (Some (PyInt 97)) 3 None None,
                 HuffmanNode (Some (PyInt 98)) 2 None None] =
     Inr [HuffmanNode (Some (PyInt 97)) 3 None None,
          HuffmanNode None 3 (Some (HuffmanNode (Some (PyInt 99)) 1 None None))
                             (Some (HuffmanNode (Some (PyInt 98)) 2 None None))]
   \<and> merge_step [HuffmanNode (Some (PyInt 97)) 3 None None,
                 HuffmanNode None 3 (Some (HuffmanNode (Some (PyInt 99)) 1 None None))
                                    (Some (HuffmanNode (Some (PyInt 98)) 2 None None))] =
     Inr [HuffmanNode None 6
            (Some (HuffmanNode (Some (PyInt 97)) 3 None None))
            (Some (HuffmanNode None 3 (Some (HuffmanNode (Some (PyInt 99)) 1 None None))
                                      (Some (HuffmanNode (Some (PyInt 98)) 2 None None))))]
   \<and> build_huffman_tree [(PyInt 97, 3), (PyInt 98, 2), (PyInt 99, 1)] =
     Inr ([], Some (HuffmanNode None 6
            (Some (HuffmanNode (Some (PyInt 97)) 3 None None))
            (Some (HuffmanNode None 3 (Some (HuffmanNode (Some (PyInt 99)) 1 None None))
                                      (Some (HuffmanNode (Some (PyInt 98)) 2 None None))))))
   \<and> build_encoding_table (Some (HuffmanNode None 6
            (Some (HuffmanNode (Some (PyInt 97)) 3 None None))
            (Some (HuffmanNode None 3 (Some (HuffmanNode (Some (PyInt 99)) 1 None None))
                                      (Some (HuffmanNode (Some (PyInt 98)) 2 None None)))))) =
     [(PyInt 97, ''0''), (PyInt 99, ''10''), (PyInt 98, ''11'')]
   \<and> join_codes [(PyInt 97, ''0''), (PyInt 99, ''10''), (PyInt 98, ''11'')]
        (iter_bytes [97, 97, 97, 98, 98, 99]) = Inr ''000111110''
   \<and> length ''000111110'' = 9
   \<and> compress_file [97, 97, 97, 98, 98, 99] = Inr [7, 31, 0]"
  using example_frequencies example_initial_heap example_first_merge example_second_merge
    example_tree example_codes example_bits example_artifact
  by simp

section \<open>The empty input\<close>

text \<open>
  Claim C5. \<^verbatim>\<open>build_frequency_table\<close> on an empty sequence returns the empty table, and
  \<^verbatim>\<open>build_huffman_tree\<close> on the empty table raises nothing, prints its error line and
  returns \<^verbatim>\<open>None\<close>.
\<close>

theorem C5_empty_input:
  "build_frequency_table [] = []
   \<and> build_huffman_tree [] = Inr ([EmptyAlphabet], None)"
proof -
  have "merge_loop [] = Inr []"
    by (subst merge_loop.simps) simp
  then show ?thesis
    by (simp add: build_frequency_table_def build_huffman_tree_def initial_heap_def)
qed

section \<open>Trailing whitespace\<close>





section \<open>The end of the decoding walk\<close>

lemma decode_loop_final_candidate:
  "decode_loop table c0 d0 bits = (d, c) \<Longrightarrow> c \<noteq> [] \<Longrightarrow>
   (bits = [] \<and> c = c0) \<or> map_of table (PyStr c) = None"
proof (induction bits arbitrary: c0 d0)
  case Nil
  then show ?case by simp
next
  case (Cons b bs)
  show ?case
  proof (cases "map_of table (PyStr (c0 @ [b]))")
    case None
    with Cons.prems have "decode_loop table (c0 @ [b]) d0 bs = (d, c)" by simp
    from Cons.IH [OF this Cons.prems(2)] None show ?thesis by auto
  next
    case (Some ch)
    with Cons.prems have "decode_loop table [] (d0 @ ch) bs = (d, c)" by simp
    from Cons.IH [OF this Cons.prems(2)] Cons.prems(2) show ?thesis by auto
  qed
qed

lemma decode_loop_split:
  "decode_loop table c0 d0 bits = (d, c) \<Longrightarrow>
   (c = c0 @ bits \<and> d = d0) \<or> (\<exists>pre. bits = pre @ c \<and> decode_loop table c0 d0 pre = (d, []))"
proof (induction bits arbitrary: c0 d0)
  case Nil
  then show ?case by simp
next
  case (Cons b bs)
  show ?case
  proof (cases "map_of table (PyStr (c0 @ [b]))")
    case None
    with Cons.prems have "decode_loop table (c0 @ [b]) d0 bs = (d, c)" by simp
    from Cons.IH [OF this] show ?thesis
    proof
      assume "c = (c0 @ [b]) @ bs \<and> d = d0"
      then show ?thesis by simp
    next
      assume "\<exists>pre. bs = pre @ c \<and> decode_loop table (c0 @ [b]) d0 pre = (d, [])"
      then obtain pre where "bs = pre @ c" "decode_loop table (c0 @ [b]) d0 pre = (d, [])"
        by blast
      with None have "b # bs = (b # pre) @ c \<and> decode_loop table c0 d0 (b # pre) = (d, [])"
        by simp
      then show ?thesis by blast
    qed
  next
    case (Some ch)
    with Cons.prems have "decode_loop table [] (d0 @ ch) bs = (d, c)" by simp
    from Cons.IH [OF this] show ?thesis
    proof
      assume "c = [] @ bs \<and> d = d0 @ ch"
      with Some have "b # bs = [b] @ c \<and> decode_loop table c0 d0 [b] = (d, [])"
        by simp
      then show ?thesis by blast
    next
      assume "\<exists>pre. bs = pre @ c \<and> decode_loop table [] (d0 @ ch) pre = (d, [])"
      then obtain pre where "bs = pre @ c" "decode_loop table [] (d0 @ ch) pre = (d, [])"
        by blast
      with Some have "b # bs = (b # pre) @ c \<and> decode_loop table c0 d0 (b # pre) = (d, [])"
        by simp
      then show ?thesis by blast
    qed
  qed
qed

lemma C4_example_walk:
  "decode_loop [(PyStr ''00'', ''a'')] [] [] (read_bits [1, 0]) = (''aaa'', ''0'')"
  by code_simp

text \<open>
  Claim C4, as stated, fails: with the table that maps the code 00 to the text a, the file
  with padding byte 1 and payload byte 0 gives seven bits 0; the walk emits three times a
  and ends with the candidate 0, which is not empty and matches no entry, and
  \<^verbatim>\<open>decompress_file\<close> returns the text aaa as an ordinary result.
\<close>

theorem C4_no_malformed_stream_counterexample:
  "decode_loop [(PyStr ''00'', ''a'')] [] [] (read_bits [1, 0]) = (''aaa'', ''0'')
   \<and> ''0'' \<noteq> []
   \<and> map_of [(PyStr ''00'', ''a'')] (PyStr ''0'') = None
   \<and> decompress_file [1, 0] (Some [(PyStr ''00'', ''a'')]) = Inr ''aaa''"
  using C4_example_walk by (simp add: decompress_file_def)

text \<open>
  Claim C4, amended. \<^verbatim>\<open>decompress_file\<close> has no failure for a malformed stream. When the
  walk ends with a non-empty candidate, the candidate matches no key of the table, the
  bit-string is some prefix followed by the candidate, and the text written is what the
  prefix alone decodes to: the candidate is dropped without notice.
\<close>

theorem C4_leftover_discarded:
  assumes "decode_loop table [] [] (read_bits file_content) = (decoded_data, current_code)"
    and "current_code \<noteq> []"
  shows "map_of table (PyStr current_code) = None
         \<and> decompress_file file_content (Some table) = Inr decoded_data
         \<and> (\<exists>pre. read_bits file_content = pre @ current_code
                  \<and> decode_loop table [] [] pre = (decoded_data, []))"
proof -
  from decode_loop_final_candidate [OF assms] assms(2)
  have "map_of table (PyStr current_code) = None" by auto
  moreover from assms(1) have "decompress_file file_content (Some table) = Inr decoded_data"
    by (simp add: decompress_file_def)
  moreover from decode_loop_split [OF assms(1)]
  have "\<exists>pre. read_bits file_content = pre @ current_code
              \<and> decode_loop table [] [] pre = (decoded_data, [])"
    by auto
  ultimately show ?thesis by blast
qed

theorem C4_leftover_discarded_witness:
  "map_of [(PyStr ''00'', ''a'')] (PyStr ''0'') = None
   \<and> decompress_file [1, 0] (Some [(PyStr ''00'', ''a'')]) = Inr ''aaa''
   \<and> (\<exists>pre. read_bits [1, 0] = pre @ ''0''
            \<and> decode_loop [(PyStr ''00'', ''a'')] [] [] pre = (''aaa'', []))"
proof -
  have h2: "''0'' \<noteq> []" by simp
  from C4_leftover_discarded [OF C4_example_walk h2] show ?thesis .
qed


section \<open>The round trip\<close>

text \<open>
  The keys of the table that \<^verbatim>\<open>build_encoding_table\<close> returns are the symbols, and
  \<^verbatim>\<open>decompress_file\<close> looks bit-strings up among the keys. When all keys are integers no
  bit-string is ever found, and the walk emits nothing.
\<close>

lemma decode_loop_int_keys:
  assumes "\<forall>k\<in>fst ` set table. \<exists>i. k = PyInt i"
  shows "decode_loop table c d bits = (d, c @ bits)"
proof (induction bits arbitrary: c)
  case Nil
  show ?case by simp
next
  case (Cons b bs)
  from assms have "PyStr (c @ [b]) \<notin> fst ` set table" by auto
  then have "map_of table (PyStr (c @ [b])) = None"
    by (simp add: map_of_eq_None_iff)
  with Cons.IH [of "c @ [b]"] show ?case by simp
qed

lemma two_symbols_tree:
  "build_huffman_tree (build_frequency_table (iter_bytes [97, 98])) =
     Inr ([], Some (HuffmanNode None 2 (Some (HuffmanNode (Some (PyInt 97)) 1 None None))
                                       (Some (HuffmanNode (Some (PyInt 98)) 1 None None))))"
  by code_simp

lemma two_symbols_table:
  "build_encoding_table
     (Some (HuffmanNode None 2 (Some (HuffmanNode (Some (PyInt 97)) 1 None None))
                               (Some (HuffmanNode (Some (PyInt 98)) 1 None None)))) =
     [(PyInt 97, ''0''), (PyInt 98, ''1'')]"
  by code_simp

lemma two_symbols_artifact: "compress_file [97, 98] = Inr [6, 64]"
  by code_simp

lemma two_symbols_bits: "read_bits [6, 64] = ''01''"
  by code_simp

lemma two_symbols_decode:
  "decompress_file [6, 64] (Some [(PyInt 97, ''0''), (PyInt 98, ''1'')]) = Inr []"
  by code_simp

lemma two_symbols_main: "main_decompress [6, 64] = Inr (Inr [])"
  by code_simp

text \<open>
  Claim C1 at the input \<^verbatim>\<open>b"ab"\<close>: the table is 97: 0, 98: 1, the compressed file is the
  padding byte 6 and the payload byte 64, the decoder strips the padding and walks the bits
  01, and with that same table it writes the empty text, not \<^verbatim>\<open>ab\<close>. The \<^verbatim>\<open>-d\<close> branch
  of \<^verbatim>\<open>main\<close>, which rebuilds the table from the compressed file, writes the empty text too.
\<close>

theorem C1_roundtrip_fails:
  "build_huffman_tree (build_frequency_table (iter_bytes [97, 98])) =
     Inr ([], Some (HuffmanNode None 2 (Some (HuffmanNode (Some (PyInt 97)) 1 None None))
                                       (Some (HuffmanNode (Some (PyInt 98)) 1 None None))))
   \<and> build_encoding_table
        (Some (HuffmanNode None 2 (Some (HuffmanNode (Some (PyInt 97)) 1 None None))
                                  (Some (HuffmanNode (Some (PyInt 98)) 1 None None)))) =
      [(PyInt 97, ''0''), (PyInt 98, ''1'')]
   \<and> compress_file [97, 98] = Inr [6, 64]
   \<and> read_bits [6, 64] = ''01''
   \<and> decompress_file [6, 64] (Some [(PyInt 97, ''0''), (PyInt 98, ''1'')]) = Inr []
   \<and> main_decompress [6, 64] = Inr (Inr [])"
  using two_symbols_tree two_symbols_table two_symbols_artifact two_symbols_bits
    two_symbols_decode two_symbols_main
  by simp

section \<open>A single symbol\<close>

lemma single_symbol_tree:
  "build_huffman_tree [(PyInt 97, 3)] = Inr ([], Some (HuffmanNode (Some (PyInt 97)) 3 None None))"
  by code_simp

lemma single_symbol_table:
  "build_encoding_table (Some (HuffmanNode (Some (PyInt 97)) 3 None None)) = [(PyInt 97, [])]"
  by code_simp

lemma single_symbol_artifact_3: "compress_file [97, 97, 97] = Inr [8, 0]"
  by code_simp

lemma single_symbol_artifact_1: "compress_file [97] = Inr [8, 0]"
  by code_simp

lemma single_symbol_decode: "decompress_file [8, 0] (Some [(PyInt 97, [])]) = Inr []"
  by code_simp

text \<open>
  Claim C2 at the frequency table \<^verbatim>\<open>{97: 3}\<close>: the tree is the single leaf, the code of
  the symbol is the empty string, the inputs \<^verbatim>\<open>b"aaa"\<close> and \<^verbatim>\<open>b"a"\<close> both compress to
  the padding byte 8 and one payload byte 0, and decoding that file gives the empty text.
\<close>

theorem C2_single_symbol_empty_code:
  "build_huffman_tree [(PyInt 97, 3)] = Inr ([], Some (HuffmanNode (Some (PyInt 97)) 3 None None))
   \<and> build_encoding_table (Some (HuffmanNode (Some (PyInt 97)) 3 None None)) = [(PyInt 97, [])]
   \<and> compress_file [97, 97, 97] = Inr [8, 0]
   \<and> compress_file [97] = Inr [8, 0]
   \<and> decompress_file [8, 0] (Some [(PyInt 97, [])]) = Inr []"
  using single_symbol_tree single_symbol_table single_symbol_artifact_3
    single_symbol_artifact_1 single_symbol_decode
  by simp


section \<open>The padding\<close>

lemma unat_byte_of_nat: "n < 256 \<Longrightarrow> unat (of_nat n :: byte) = n"
  by (simp add: unat_of_nat)

lemma int2_digits_binary:
  "set s \<subseteq> {CHR ''0'', CHR ''1''} \<Longrightarrow>
   \<exists>n. int2_digits a s = Inr n \<and> n div 2 ^ length s = a \<and> bin_str (length s) n = s"
proof (induction s arbitrary: a)
  case Nil
  show ?case by simp
next
  case (Cons c cs)
  define d :: nat where "d = (if c = CHR ''1'' then 1 else 0)"
  from Cons.prems have c: "c = CHR ''0'' \<or> c = CHR ''1''" and cs: "set cs \<subseteq> {CHR ''0'', CHR ''1''}"
    by auto
  from c have step: "int2_digits a (c # cs) = int2_digits (2 * a + d) cs"
    by (auto simp: d_def)
  from Cons.IH [OF cs, of "2 * a + d"] obtain n where
    n: "int2_digits (2 * a + d) cs = Inr n" "n div 2 ^ length cs = 2 * a + d"
       "bin_str (length cs) n = cs"
    by blast
  have "n div (2 ^ length cs * 2) = (n div 2 ^ length cs) div 2"
    by (rule div_mult2_eq)
  then have "n div 2 ^ length (c # cs) = (n div 2 ^ length cs) div 2"
    by (simp add: mult.commute)
  with n(2) have hi: "n div 2 ^ length (c # cs) = a"
    by (simp add: d_def)
  from n(2) have "(n div 2 ^ length cs) mod 2 = d"
    by (simp add: d_def)
  with c n(3) have "bin_str (length (c # cs)) n = c # cs"
    by (auto simp: d_def)
  with step n(1) hi show ?case by simp
qed

lemma int2_byte:
  assumes "set s \<subseteq> {CHR ''0'', CHR ''1''}" "length s = 8"
  shows "\<exists>n. int2 s = Inr n \<and> n < 256 \<and> bin_str 8 n = s"
proof -
  from int2_digits_binary [OF assms(1), of 0] assms(2) obtain n where
    n: "int2_digits 0 s = Inr n" "n div 2 ^ 8 = 0" "bin_str 8 n = s"
    by auto
  from n(2) have "n < 256" by (simp add: div_eq_0_iff)
  moreover from assms(2) have "s \<noteq> []" by auto
  ultimately show ?thesis using n by (simp add: int2_def)
qed

lemma pack_bytes_binary:
  "set s \<subseteq> {CHR ''0'', CHR ''1''} \<Longrightarrow> 8 dvd length s \<Longrightarrow>
   \<exists>bs. pack_bytes s = Inr bs \<and> concat (map format_08b bs) = s"
proof (induction s rule: pack_bytes.induct)
  case (1 s)
  show ?case
  proof (cases "s = []")
    case True
    then show ?thesis by (subst pack_bytes.simps) simp
  next
    case False
    then have "0 < length s" by simp
    with "1.prems"(2) have len: "8 \<le> length s"
      by (rule dvd_imp_le)
    then have l8: "length (take 8 s) = 8" by simp
    from "1.prems"(1) have b8: "set (take 8 s) \<subseteq> {CHR ''0'', CHR ''1''}"
      using set_take_subset [of 8 s] by blast
    from int2_byte [OF b8 l8] obtain n where
      n: "int2 (take 8 s) = Inr n" "n < 256" "bin_str 8 n = take 8 s"
      by blast
    from n(2) have tb: "to_byte n = Inr (of_nat n)"
      by (simp add: to_byte_def)
    from "1.prems"(1) have bd: "set (drop 8 s) \<subseteq> {CHR ''0'', CHR ''1''}"
      using set_drop_subset [of 8 s] by blast
    from "1.prems"(2) len have dd: "8 dvd length (drop 8 s)"
      by (simp add: dvd_diff_nat)
    from "1.IH" [OF False n(1) tb bd dd] obtain bs where
      bs: "pack_bytes (drop 8 s) = Inr bs" "concat (map format_08b bs) = drop 8 s"
      by blast
    from n(2,3) have "format_08b (of_nat n) = take 8 s"
      by (simp add: format_08b_def unat_byte_of_nat)
    with bs(2) have "concat (map format_08b (of_nat n # bs)) = s"
      by simp
    moreover have "pack_bytes s = Inr (of_nat n # bs)"
      using False n(1) tb bs(1) by (subst pack_bytes.simps) simp
    ultimately show ?thesis by blast
  qed
qed


lemma entries_binary:
  "(s, f, c) \<in> set (entries t code) \<Longrightarrow> set c \<subseteq> set code \<union> {CHR ''0'', CHR ''1''}"
proof (induction t code rule: entries.induct)
  case (1 ch fr l r code)
  from "1.prems" consider
      (here) "ch = Some s" "c = code"
    | (left) a where "l = Some a" "(s, f, c) \<in> set (entries a (code @ ''0''))"
    | (right) b where "r = Some b" "(s, f, c) \<in> set (entries b (code @ ''1''))"
    by (auto split: option.splits)
  then show ?case
  proof cases
    case here
    then show ?thesis by auto
  next
    case left
    from "1.IH"(1) [OF left] show ?thesis by auto
  next
    case right
    from "1.IH"(2) [OF right] show ?thesis by auto
  qed
qed

lemma join_codes_total:
  "set xs \<subseteq> fst ` set table \<Longrightarrow> \<forall>(s, c)\<in>set table. set c \<subseteq> B \<Longrightarrow>
   \<exists>enc. join_codes table xs = Inr enc \<and> set enc \<subseteq> B"
proof (induction xs)
  case Nil
  show ?case by simp
next
  case (Cons x xs)
  from Cons.prems(1) have "x \<in> fst ` set table" by simp
  then obtain code where code: "map_of table x = Some code"
    by (metis map_of_eq_None_iff not_Some_eq)
  then have "(x, code) \<in> set table" by (rule map_of_SomeD)
  with Cons.prems(2) have b: "set code \<subseteq> B" by auto
  from Cons.prems(1) have "set xs \<subseteq> fst ` set table" by simp
  from Cons.IH [OF this Cons.prems(2)] obtain rest where
    "join_codes table xs = Inr rest" "set rest \<subseteq> B" by blast
  with code b show ?case by (simp add: dict_item_def)
qed

lemma encoding_table_of_data:
  "\<exists>printed tree.
     build_huffman_tree (build_frequency_table data) = Inr (printed, tree)
     \<and> fst ` set (build_encoding_table tree) = set data
     \<and> (\<forall>(s, c)\<in>set (build_encoding_table tree). set c \<subseteq> {CHR ''0'', CHR ''1''})"
proof (cases "data = []")
  case True
  have "merge_loop [] = Inr []"
    by (subst merge_loop.simps) simp
  then have "build_huffman_tree [] = Inr ([EmptyAlphabet], None)"
    by (simp add: build_huffman_tree_def initial_heap_def)
  with True show ?thesis
    by (simp add: build_frequency_table_def build_encoding_table_def)
next
  case False
  let ?ft = "build_frequency_table data"
  from False have ne: "?ft \<noteq> []"
    by (simp add: build_frequency_table_empty_iff)
  from tree_table [OF build_frequency_table_props(1) ne] obtain t where
    t: "build_huffman_tree ?ft = Inr ([], Some t)" "wf_tree t" "mset (leaf_items t) = mset ?ft"
       "build_encoding_table (Some t) = map (\<lambda>(s, f, c). (s, c)) (entries t [])"
    by blast
  have "fst ` set (build_encoding_table (Some t)) = set (map fst (leaf_items t))"
    unfolding t(4) by (force simp: leaf_items_def)
  also have "\<dots> = set (map fst ?ft)"
    using leaf_items_keys [OF t(3)] by (metis set_mset_mset)
  also have "\<dots> = set data"
    using build_frequency_table_props(2) [of data] by simp
  finally have keys: "fst ` set (build_encoding_table (Some t)) = set data" .
  have "set c \<subseteq> {CHR ''0'', CHR ''1''}" if "(s, c) \<in> set (build_encoding_table (Some t))" for s c
  proof -
    from that obtain f where "(s, f, c) \<in> set (entries t [])"
      unfolding t(4) by auto
    from entries_binary [OF this] show ?thesis by simp
  qed
  with t(1) keys show ?thesis by blast
qed

lemma padding_range: "1 \<le> 8 - n mod 8 \<and> 8 - n mod 8 \<le> (8::nat) \<and> 8 dvd n + (8 - n mod 8)"
  by presburger

lemma compress_data_result:
  "\<exists>printed tree encoded_data payload.
     build_huffman_tree (build_frequency_table (iter_bytes data)) = Inr (printed, tree)
     \<and> join_codes (build_encoding_table tree) (iter_bytes data) = Inr encoded_data
     \<and> compress_data data = Inr (of_nat (8 - length encoded_data mod 8) # payload)
     \<and> concat (map format_08b payload)
         = encoded_data @ replicate (8 - length encoded_data mod 8) (CHR ''0'')"
proof -
  from encoding_table_of_data [of "iter_bytes data"] obtain printed tree where
    t: "build_huffman_tree (build_frequency_table (iter_bytes data)) = Inr (printed, tree)"
       "fst ` set (build_encoding_table tree) = set (iter_bytes data)"
       "\<forall>(s, c)\<in>set (build_encoding_table tree). set c \<subseteq> {CHR ''0'', CHR ''1''}"
    by blast
  from t(2) have "set (iter_bytes data) \<subseteq> fst ` set (build_encoding_table tree)" by simp
  from join_codes_total [OF this t(3)] obtain enc where
    enc: "join_codes (build_encoding_table tree) (iter_bytes data) = Inr enc"
         "set enc \<subseteq> {CHR ''0'', CHR ''1''}"
    by blast
  let ?p = "8 - length enc mod 8"
  let ?padded = "enc @ replicate ?p (CHR ''0'')"
  from enc(2) have "set ?padded \<subseteq> {CHR ''0'', CHR ''1''}" by auto
  moreover have "8 dvd length ?padded"
    using padding_range [of "length enc"] by simp
  ultimately obtain bs where
    bs: "pack_bytes ?padded = Inr bs" "concat (map format_08b bs) = ?padded"
    using pack_bytes_binary by blast
  have tb: "to_byte ?p = Inr (of_nat ?p)"
    by (simp add: to_byte_def)
  from t(1) enc(1) bs(1) tb have "compress_data data = Inr (of_nat ?p # bs)"
    by (simp add: compress_data_def Let_def)
  with t(1) enc(1) bs(2) show ?thesis by blast
qed

lemma read_padding_Cons: "read_padding (h # payload) = unat h"
  by (simp add: read_padding_def)

lemma expand_payload_Cons: "expand_payload (h # payload) = concat (map format_08b payload)"
  by (simp add: expand_payload_def)

lemma C3_example_artifact: "compress_file [97, 98, 97, 98, 97, 98, 97, 98] = Inr [8, 85, 0]"
  by code_simp

text \<open>
  Claim C3, as stated, fails: the input \<^verbatim>\<open>b"abababab"\<close> has the codes 0 and 1, its
  bit-string has 8 bits, and the padding byte written is 8, outside the range from 0 to 7.
\<close>

theorem C3_padding_is_eight_counterexample:
  "compress_file [97, 98, 97, 98, 97, 98, 97, 98] = Inr [8, 85, 0]
   \<and> read_padding [8, 85, 0] = 8 \<and> \<not> (8::nat) \<le> 7"
  using C3_example_artifact by (simp add: read_padding_def)

text \<open>
  Claim C3, amended. For every input, \<^verbatim>\<open>compress_file\<close> raises nothing and writes as first
  byte the padding \<open>8 - len(encoded_data) % 8\<close>, which lies between 1 and 8 (8 when the
  bit-string already fills whole bytes); the payload expands to the bit-string followed by
  that many zeros, and the decoder, cutting by \<^verbatim>\<open>[:-padding]\<close>, walks exactly the bit-string
  that was encoded.
\<close>

theorem C3_padding_range:
  "\<exists>printed tree encoded_data header payload.
     build_huffman_tree (build_frequency_table (iter_bytes (rstrip file_content)))
       = Inr (printed, tree)
     \<and> join_codes (build_encoding_table tree) (iter_bytes (rstrip file_content))
         = Inr encoded_data
     \<and> compress_file file_content = Inr (header # payload)
     \<and> read_padding (header # payload) = 8 - length encoded_data mod 8
     \<and> 1 \<le> read_padding (header # payload) \<and> read_padding (header # payload) \<le> 8
     \<and> expand_payload (header # payload)
         = encoded_data @ replicate (read_padding (header # payload)) (CHR ''0'')
     \<and> read_bits (header # payload) = encoded_data"
proof -
  from compress_data_result [of "rstrip file_content"] obtain printed tree enc payload where
    r: "build_huffman_tree (build_frequency_table (iter_bytes (rstrip file_content)))
          = Inr (printed, tree)"
       "join_codes (build_encoding_table tree) (iter_bytes (rstrip file_content)) = Inr enc"
       "compress_data (rstrip file_content) = Inr (of_nat (8 - length enc mod 8) # payload)"
       "concat (map format_08b payload) = enc @ replicate (8 - length enc mod 8) (CHR ''0'')"
    by blast
  let ?p = "8 - length enc mod 8"
  let ?h = "of_nat ?p :: byte"
  have "?p < 256" by arith
  then have p: "read_padding (?h # payload) = ?p"
    unfolding read_padding_Cons by (rule unat_byte_of_nat)
  have e: "expand_payload (?h # payload) = enc @ replicate ?p (CHR ''0'')"
    unfolding expand_payload_Cons by (rule r(4))
  have "?p \<noteq> 0" by arith
  then have b: "read_bits (?h # payload) = enc"
    unfolding read_bits_def p e by (simp add: slice_to_minus_def)
  from r(1,2,3) p e b padding_range [of "length enc"] show ?thesis
    unfolding compress_file_def by (intro exI [of _ printed] exI [of _ tree] exI [of _ enc]
      exI [of _ ?h] exI [of _ payload]) simp
qed


section \<open>The priority queue returns a minimum\<close>

text \<open>
  The heap invariant of \<^verbatim>\<open>heapq\<close>: no element is smaller than its parent, the parent of
  position \<open>i\<close> being \<open>(i - 1) div 2\<close>. \<open>hole_ok\<close> is the state of \<^verbatim>\<open>_siftdown\<close>, where the
  item travels towards the root; \<open>gap_ok\<close> is the state of the first loop of \<^verbatim>\<open>_siftup\<close>,
  where the smaller child moves up into the gap.
\<close>

definition is_heap :: "HuffmanNode list \<Rightarrow> bool" where
  "is_heap h = (\<forall>i. 0 < i \<and> i < length h \<longrightarrow> freq (h ! ((i - 1) div 2)) \<le> freq (h ! i))"

definition hole_ok :: "HuffmanNode list \<Rightarrow> nat \<Rightarrow> HuffmanNode \<Rightarrow> bool" where
  "hole_ok h pos n =
     ((\<forall>i. 0 < i \<and> i < length h \<and> i \<noteq> pos \<longrightarrow> freq (h ! ((i - 1) div 2)) \<le> freq (h ! i))
      \<and> (\<forall>c. 0 < c \<and> c < length h \<and> (c - 1) div 2 = pos \<longrightarrow>
             freq n \<le> freq (h ! c)
             \<and> (0 < pos \<longrightarrow> freq (h ! ((pos - 1) div 2)) \<le> freq (h ! c))))"

lemma parent_less: "0 < i \<Longrightarrow> (i - 1) div 2 < (i::nat)"
  by arith

lemma heap_root_min:
  assumes "is_heap h"
  shows "i < length h \<Longrightarrow> freq (h ! 0) \<le> freq (h ! i)"
proof (induction i rule: less_induct)
  case (less i)
  show ?case
  proof (cases "i = 0")
    case True
    then show ?thesis by simp
  next
    case False
    then have p: "(i - 1) div 2 < i" by arith
    with less.prems have "(i - 1) div 2 < length h" by simp
    from less.IH [OF p this] have "freq (h ! 0) \<le> freq (h ! ((i - 1) div 2))" .
    moreover from assms False less.prems have "freq (h ! ((i - 1) div 2)) \<le> freq (h ! i)"
      by (simp add: is_heap_def)
    ultimately show ?thesis by simp
  qed
qed

lemma hole_filled:
  assumes "hole_ok h pos n" "pos < length h"
    and "pos = 0 \<or> \<not> node_lt n (h ! ((pos - 1) div 2))"
  shows "is_heap (h[pos := n])"
  unfolding is_heap_def
proof (intro allI impI)
  fix i assume i: "0 < i \<and> i < length (h[pos := n])"
  let ?p = "(i - 1) div 2"
  from i have pi: "?p < i" by arith
  show "freq (h[pos := n] ! ?p) \<le> freq (h[pos := n] ! i)"
  proof (cases "i = pos")
    case True
    with pi i assms(3) show ?thesis
      by (auto simp: node_lt_def)
  next
    case False
    show ?thesis
    proof (cases "?p = pos")
      case True
      with assms(1) i False have "freq n \<le> freq (h ! i)"
        by (simp add: hole_ok_def)
      with True False assms(2) show ?thesis by simp
    next
      case np: False
      with assms(1) i False have "freq (h ! ?p) \<le> freq (h ! i)"
        by (simp add: hole_ok_def)
      with np False show ?thesis by simp
    qed
  qed
qed

lemma hole_moves_up:
  assumes "hole_ok h pos n" "pos < length h" "0 < pos" "node_lt n (h ! ((pos - 1) div 2))"
  shows "hole_ok (h[pos := h ! ((pos - 1) div 2)]) ((pos - 1) div 2) n"
proof -
  let ?pp = "(pos - 1) div 2"
  let ?h1 = "h[pos := h ! ?pp]"
  from assms(3) have pp: "?pp < pos" by arith
  have edge: "freq (h ! ((i - 1) div 2)) \<le> freq (h ! i)" if "0 < i" "i < length h" "i \<noteq> pos" for i
    using assms(1) that by (simp add: hole_ok_def)
  have child: "freq n \<le> freq (h ! c)" "freq (h ! ?pp) \<le> freq (h ! c)"
    if "0 < c" "c < length h" "(c - 1) div 2 = pos" for c
    using assms(1,3) that by (simp_all add: hole_ok_def)
  have lt: "freq n < freq (h ! ?pp)"
    using assms(4) by (simp add: node_lt_def)
  have A: "freq (?h1 ! ((i - 1) div 2)) \<le> freq (?h1 ! i)"
    if i: "0 < i" "i < length ?h1" "i \<noteq> ?pp" for i
  proof (cases "i = pos")
    case True
    with pp assms(2) show ?thesis by simp
  next
    case False
    show ?thesis
    proof (cases "(i - 1) div 2 = pos")
      case True
      with child(2) [of i] i False assms(2) show ?thesis by simp
    next
      case np: False
      with edge [of i] i False show ?thesis by simp
    qed
  qed
  have B: "freq n \<le> freq (?h1 ! c) \<and> (0 < ?pp \<longrightarrow> freq (?h1 ! ((?pp - 1) div 2)) \<le> freq (?h1 ! c))"
    if c: "0 < c" "c < length ?h1" "(c - 1) div 2 = ?pp" for c
  proof -
    have ppp: "0 < ?pp \<Longrightarrow> (?pp - 1) div 2 < ?pp" by arith
    have up: "0 < ?pp \<Longrightarrow> freq (h ! ((?pp - 1) div 2)) \<le> freq (h ! ?pp)"
      using edge [of ?pp] pp assms(2) by simp
    show ?thesis
    proof (cases "c = pos")
      case True
      with lt up ppp pp assms(2) show ?thesis by auto
    next
      case False
      with edge [of c] c have "freq (h ! ?pp) \<le> freq (h ! c)" by simp
      with lt up ppp pp False show ?thesis by auto
    qed
  qed
  from A B show ?thesis
    unfolding hole_ok_def by blast
qed

lemma siftdown_loop_heap:
  "hole_ok heap pos newitem \<Longrightarrow> pos < length heap \<Longrightarrow>
   siftdown_loop heap 0 newitem pos = (heap', pos') \<Longrightarrow> is_heap (heap'[pos' := newitem])"
proof (induction heap "0::nat" newitem pos rule: siftdown_loop.induct)
  case (1 heap newitem pos)
  show ?case
  proof (cases "0 < pos \<and> node_lt newitem (heap ! ((pos - 1) div 2))")
    case True
    let ?pp = "(pos - 1) div 2"
    from True have pp: "?pp < pos" by arith
    from True have "siftdown_loop heap 0 newitem pos
                    = siftdown_loop (heap[pos := heap ! ?pp]) 0 newitem ?pp"
      by (subst siftdown_loop.simps) (simp add: Let_def)
    with "1.prems"(3)
    have l: "siftdown_loop (heap[pos := heap ! ?pp]) 0 newitem ?pp = (heap', pos')" by simp
    from True have c1: "0 < pos" and c2: "node_lt newitem (heap ! ?pp)" by simp_all
    from hole_moves_up [OF "1.prems"(1,2) c1 c2]
    have h: "hole_ok (heap[pos := heap ! ?pp]) ?pp newitem" .
    from pp "1.prems"(2) have "?pp < length (heap[pos := heap ! ?pp])" by simp
    from "1.hyps" [OF c1 refl refl c2 h this l] show ?thesis .
  next
    case False
    then have "siftdown_loop heap 0 newitem pos = (heap, pos)"
      by (subst siftdown_loop.simps) (auto simp: Let_def)
    with "1.prems"(3) have "heap' = heap" "pos' = pos" by simp_all
    with hole_filled [OF "1.prems"(1,2)] False show ?thesis by auto
  qed
qed

lemma siftdown_heap:
  assumes "hole_ok heap pos (heap ! pos)" "pos < length heap"
  shows "is_heap (siftdown heap 0 pos)"
proof -
  obtain heap' pos' where l: "siftdown_loop heap 0 (heap ! pos) pos = (heap', pos')"
    by (cases "siftdown_loop heap 0 (heap ! pos) pos")
  from siftdown_loop_heap [OF assms l] l show ?thesis
    by (simp add: siftdown_def)
qed

lemma is_heap_heappush:
  assumes "is_heap h"
  shows "is_heap (heappush h x)"
proof -
  have "hole_ok (h @ [x]) (length h) ((h @ [x]) ! length h)"
    unfolding hole_ok_def
  proof (intro conjI allI impI)
    fix i assume i: "0 < i \<and> i < length (h @ [x]) \<and> i \<noteq> length h"
    then have il: "i < length h" by simp
    with i have "(i - 1) div 2 < length h" by arith
    with il assms i show "freq ((h @ [x]) ! ((i - 1) div 2)) \<le> freq ((h @ [x]) ! i)"
      by (simp add: nth_append is_heap_def)
  next
    fix c assume c: "0 < c \<and> c < length (h @ [x]) \<and> (c - 1) div 2 = length h"
    then have False by (simp, arith)
    then show "freq ((h @ [x]) ! length h) \<le> freq ((h @ [x]) ! c)" ..
  next
    fix c assume c: "0 < c \<and> c < length (h @ [x]) \<and> (c - 1) div 2 = length h"
    then have False by (simp, arith)
    then show "freq ((h @ [x]) ! ((length h - 1) div 2)) \<le> freq ((h @ [x]) ! c)" ..
  qed
  from siftdown_heap [OF this] show ?thesis
    by (simp add: heappush_def)
qed


definition gap_ok :: "HuffmanNode list \<Rightarrow> nat \<Rightarrow> bool" where
  "gap_ok h pos =
     ((\<forall>i. 0 < i \<and> i < length h \<and> i \<noteq> pos \<and> (i - 1) div 2 \<noteq> pos \<longrightarrow>
           freq (h ! ((i - 1) div 2)) \<le> freq (h ! i))
      \<and> (\<forall>c. 0 < c \<and> c < length h \<and> (c - 1) div 2 = pos \<and> 0 < pos \<longrightarrow>
             freq (h ! ((pos - 1) div 2)) \<le> freq (h ! c)))"

lemma children:
  "0 < c \<Longrightarrow> (c - 1) div 2 = pos \<longleftrightarrow> c = 2 * pos + 1 \<or> c = 2 * pos + (2::nat)"
  by arith

lemma gap_moves_down:
  assumes "gap_ok h pos" "2 * pos + 1 < length h"
    and c: "c = (if 2 * pos + 1 + 1 < length h \<and> \<not> node_lt (h ! (2 * pos + 1)) (h ! (2 * pos + 1 + 1))
                 then 2 * pos + 1 + 1 else 2 * pos + 1)"
  shows "gap_ok (h[pos := h ! c]) c"
proof -
  let ?h1 = "h[pos := h ! c]"
  from c assms(2) have cl: "c < length h" and cp: "pos < c" and c0: "0 < c"
    and pc: "(c - 1) div 2 = pos"
    by (auto split: if_splits)
  have edge: "freq (h ! ((i - 1) div 2)) \<le> freq (h ! i)"
    if "0 < i" "i < length h" "i \<noteq> pos" "(i - 1) div 2 \<noteq> pos" for i
    using assms(1) that by (simp add: gap_ok_def)
  have up: "freq (h ! ((pos - 1) div 2)) \<le> freq (h ! d)"
    if "0 < d" "d < length h" "(d - 1) div 2 = pos" "0 < pos" for d
    using assms(1) that by (simp add: gap_ok_def)
  have sib: "freq (h ! c) \<le> freq (h ! s)"
    if s: "0 < s" "s < length h" "(s - 1) div 2 = pos" for s
  proof -
    from s(1,3) have "s = 2 * pos + 1 \<or> s = 2 * pos + 2" using children [of s pos] by simp
    with s(2) c show ?thesis
      by (auto simp: node_lt_def split: if_splits)
  qed
  have A: "freq (?h1 ! ((i - 1) div 2)) \<le> freq (?h1 ! i)"
    if i: "0 < i" "i < length ?h1" "i \<noteq> c" "(i - 1) div 2 \<noteq> c" for i
  proof (cases "i = pos")
    case True
    with i(1) have "(pos - 1) div 2 < pos" by arith
    with True up [OF c0 cl pc] i show ?thesis by simp
  next
    case False
    show ?thesis
    proof (cases "(i - 1) div 2 = pos")
      case True
      with sib [of i] i False show ?thesis by simp
    next
      case np: False
      with edge [of i] i False show ?thesis by simp
    qed
  qed
  have B: "freq (?h1 ! ((c - 1) div 2)) \<le> freq (?h1 ! d)"
    if d: "0 < d" "d < length ?h1" "(d - 1) div 2 = c" for d
  proof -
    from d(1,3) cp have dp: "d \<noteq> pos" "(d - 1) div 2 \<noteq> pos" by arith+
    with edge [of d] d have "freq (h ! c) \<le> freq (h ! d)" by simp
    with pc dp cl cp show ?thesis by simp
  qed
  from A B show ?thesis
    unfolding gap_ok_def by blast
qed

lemma siftup_loop_heap:
  "gap_ok heap pos \<Longrightarrow> endpos = length heap \<Longrightarrow> pos < length heap \<Longrightarrow>
   siftup_loop heap endpos pos = (heap', pos') \<Longrightarrow>
   pos' < length heap \<and> hole_ok (heap'[pos' := newitem]) pos' newitem"
proof (induction heap endpos pos rule: siftup_loop.induct)
  case (1 heap endpos pos)
  show ?case
  proof (cases "2 * pos + 1 < endpos")
    case True
    define c where "c = (if 2 * pos + 1 + 1 < endpos \<and> \<not> node_lt (heap ! (2 * pos + 1)) (heap ! (2 * pos + 1 + 1))
                         then 2 * pos + 1 + 1 else 2 * pos + 1)"
    from True have cl: "c < endpos" by (auto simp: c_def)
    from True have "siftup_loop heap endpos pos = siftup_loop (heap[pos := heap ! c]) endpos c"
      by (subst siftup_loop.simps) (auto simp: Let_def c_def)
    with "1.prems"(4)
    have l: "siftup_loop (heap[pos := heap ! c]) endpos c = (heap', pos')" by simp
    have g: "gap_ok (heap[pos := heap ! c]) c"
      using gap_moves_down [OF "1.prems"(1)] True c_def "1.prems"(2) by simp
    from "1.IH" [OF refl True refl c_def g _ _ l] cl "1.prems"(2)
    show ?thesis by simp
  next
    case False
    then have "siftup_loop heap endpos pos = (heap, pos)"
      by (subst siftup_loop.simps) (auto simp: Let_def)
    with "1.prems"(4) have eq: "heap' = heap" "pos' = pos" by simp_all
    have leaf: "(i - 1) div 2 \<noteq> pos" if "0 < i" "i < length heap" for i
      using that False "1.prems"(2) by (simp add: children)
    have "hole_ok (heap[pos := newitem]) pos newitem"
      unfolding hole_ok_def
    proof (intro conjI allI impI)
      fix i assume i: "0 < i \<and> i < length (heap[pos := newitem]) \<and> i \<noteq> pos"
      with leaf [of i] have np: "(i - 1) div 2 \<noteq> pos" by simp
      with "1.prems"(1) i have "freq (heap ! ((i - 1) div 2)) \<le> freq (heap ! i)"
        by (simp add: gap_ok_def)
      with i np show "freq (heap[pos := newitem] ! ((i - 1) div 2)) \<le> freq (heap[pos := newitem] ! i)"
        by simp
    next
      fix c assume "0 < c \<and> c < length (heap[pos := newitem]) \<and> (c - 1) div 2 = pos"
      with leaf [of c] have False by simp
      then show "freq newitem \<le> freq (heap[pos := newitem] ! c)" ..
    next
      fix c assume "0 < c \<and> c < length (heap[pos := newitem]) \<and> (c - 1) div 2 = pos"
      with leaf [of c] have False by simp
      then show "freq (heap[pos := newitem] ! ((pos - 1) div 2)) \<le> freq (heap[pos := newitem] ! c)" ..
    qed
    with eq "1.prems"(3) show ?thesis by simp
  qed
qed

lemma siftup_heap:
  assumes "gap_ok heap 0" "heap \<noteq> []"
  shows "is_heap (siftup heap 0)"
proof -
  obtain heap' pos' where l: "siftup_loop heap (length heap) 0 = (heap', pos')"
    by (cases "siftup_loop heap (length heap) 0")
  from assms(2) have "0 < length heap" by simp
  from siftup_loop_heap [OF assms(1) refl this l, of "heap ! 0"]
  have p: "pos' < length heap" and h: "hole_ok (heap'[pos' := heap ! 0]) pos' (heap ! 0)"
    by simp_all
  let ?h2 = "heap'[pos' := heap ! 0]"
  from p length_siftup_loop [OF l] have p2: "pos' < length ?h2" by simp
  then have "?h2 ! pos' = heap ! 0" by simp
  with h have "hole_ok ?h2 pos' (?h2 ! pos')" by simp
  from siftdown_heap [OF this p2] l show ?thesis
    by (simp add: siftup_def)
qed

lemma is_heap_butlast: "is_heap (ys @ [y]) \<Longrightarrow> is_heap ys"
  unfolding is_heap_def
proof (intro allI impI)
  fix i assume a: "\<forall>i. 0 < i \<and> i < length (ys @ [y]) \<longrightarrow>
      freq ((ys @ [y]) ! ((i - 1) div 2)) \<le> freq ((ys @ [y]) ! i)" and i: "0 < i \<and> i < length ys"
  then have "(i - 1) div 2 < length ys" by arith
  with a [rule_format, of i] i show "freq (ys ! ((i - 1) div 2)) \<le> freq (ys ! i)"
    by (simp add: nth_append)
qed

lemma heappop_heap:
  assumes "is_heap heap" "heappop heap = Inr (item, heap')"
  shows "is_heap heap' \<and> (\<forall>y\<in>set heap. freq item \<le> freq y)"
proof (cases heap rule: rev_cases)
  case Nil
  with assms(2) show ?thesis by (simp add: heappop_def)
next
  case (snoc ys y)
  show ?thesis
  proof (cases ys)
    case Nil
    with snoc assms(2) show ?thesis by (auto simp: heappop_def is_heap_def)
  next
    case (Cons z zs)
    with snoc assms(2) have item: "item = z" and heap': "heap' = siftup (y # zs) 0"
      by (auto simp: heappop_def)
    from snoc Cons have z: "heap ! 0 = z" by simp
    have min: "\<forall>x\<in>set heap. freq item \<le> freq x"
      using heap_root_min [OF assms(1)] z item by (auto simp: in_set_conv_nth)
    from assms(1) snoc Cons have hz: "is_heap (z # zs)"
      using is_heap_butlast by simp
    have "gap_ok (y # zs) 0"
      unfolding gap_ok_def
    proof (intro conjI allI impI)
      fix i assume i: "0 < i \<and> i < length (y # zs) \<and> i \<noteq> 0 \<and> (i - 1) div 2 \<noteq> 0"
      then have "0 < (i - 1) div 2" by simp
      with hz i show "freq ((y # zs) ! ((i - 1) div 2)) \<le> freq ((y # zs) ! i)"
        unfolding is_heap_def by (auto simp: nth_Cons')
    next
      fix c assume "0 < c \<and> c < length (y # zs) \<and> (c - 1) div 2 = 0 \<and> (0::nat) < 0"
      then show "freq ((y # zs) ! ((0 - 1) div 2)) \<le> freq ((y # zs) ! c)" by simp
    qed
    from siftup_heap [OF this] heap' min show ?thesis by simp
  qed
qed


section \<open>Merging the two smallest weights loses nothing\<close>

text \<open>
  A code is measured by the multiset of its pairs (weight of a symbol, length of its code).
  \<open>kraft N P\<close> is the Kraft sum of the lengths scaled by \<open>2 ^ N\<close>, \<open>wcost P\<close> the weighted
  length. From any such multiset whose Kraft sum is at most one, a multiset for the
  weights after merging the two smallest is obtained, at a cost smaller by their sum.
\<close>

definition kraft :: "nat \<Rightarrow> (int \<times> nat) multiset \<Rightarrow> nat" where
  "kraft N P = (\<Sum>d\<in>#image_mset snd P. 2 ^ (N - d))"

definition wcost :: "(int \<times> nat) multiset \<Rightarrow> int" where
  "wcost P = (\<Sum>p\<in>#P. fst p * int (snd p))"

lemma kraft_add [simp]: "kraft N (add_mset (w, d) P) = 2 ^ (N - d) + kraft N P"
  by (simp add: kraft_def)

lemma wcost_add [simp]: "wcost (add_mset (w, d) P) = w * int d + wcost P"
  by (simp add: wcost_def)

lemma kraft_cong: "image_mset snd P = image_mset snd Q \<Longrightarrow> kraft N P = kraft N Q"
  by (simp add: kraft_def)

lemma wcost_nonneg: "\<forall>w\<in>#image_mset fst P. 0 \<le> w \<Longrightarrow> 0 \<le> wcost P"
  by (induction P) (auto simp: wcost_def)

lemma kraft_lower: "\<forall>d\<in>#image_mset snd P. d \<le> D \<Longrightarrow> size P * 2 ^ (N - D) \<le> kraft N P"
proof (induction P)
  case empty
  show ?case by (simp add: kraft_def)
next
  case (add p P)
  obtain w d where p: "p = (w, d)" by (cases p)
  from add.prems p have "d \<le> D" by simp
  then have A: "(2::nat) ^ (N - D) \<le> 2 ^ (N - d)"
    by (intro power_increasing) simp_all
  from add have B: "size P * 2 ^ (N - D) \<le> kraft N P" by simp
  from add_mono [OF A B] show ?case unfolding p kraft_add by simp
qed

lemma kraft_dvd:
  "\<forall>d\<in>#image_mset snd R. d < D \<Longrightarrow> D \<le> N \<Longrightarrow> 2 ^ (N - D + 1) dvd kraft N R"
proof (induction R)
  case empty
  show ?case by (simp add: kraft_def)
next
  case (add p R)
  obtain w d where p: "p = (w, d)" by (cases p)
  from add.prems p have "d < D" by simp
  with add.prems(2) have "N - D + 1 \<le> N - d" by arith
  then have "(2::nat) ^ (N - D + 1) dvd 2 ^ (N - d)"
    by (rule le_imp_power_dvd)
  moreover from add have "2 ^ (N - D + 1) dvd kraft N R" by simp
  ultimately show ?case using p by simp
qed

lemma room_for_one_more:
  fixes K M T :: nat
  assumes "M dvd K" "M dvd T" "K < T"
  shows "M + K \<le> T"
proof -
  from assms(1) obtain k where k: "K = M * k" ..
  from assms(2) obtain j where j: "T = M * j" ..
  from assms(3) k j have "k < j" by (metis mult_less_cancel1)
  then have "Suc k \<le> j" by simp
  then have "M * Suc k \<le> M * j" by (rule mult_le_mono2)
  with k j show ?thesis by simp
qed

lemma min_to_deep_slot:
  assumes "\<forall>d\<in>#image_mset snd R. d \<le> D" "\<forall>w\<in>#add_mset x (image_mset fst R). a \<le> w"
    and "a \<in># add_mset x (image_mset fst R)"
  shows "\<exists>R'. image_mset fst R' = add_mset x (image_mset fst R) - {#a#}
             \<and> image_mset snd R' = image_mset snd R
             \<and> wcost (add_mset (a, D) R') \<le> wcost (add_mset (x, D) R)"
proof (cases "x = a")
  case True
  then show ?thesis by (intro exI [of _ R]) simp
next
  case False
  with assms(3) have "a \<in># image_mset fst R" by simp
  then obtain p where "p \<in># R" "fst p = a" by auto
  then obtain da R0 where R: "R = add_mset (a, da) R0"
    by (metis insert_DiffM prod.collapse)
  from assms(1) R have "da \<le> D" by simp
  moreover from assms(2) have "a \<le> x" by simp
  ultimately have "0 \<le> (x - a) * (int D - int da)" by simp
  then have "a * int D + x * int da \<le> x * int D + a * int da"
    by (simp add: algebra_simps)
  then show ?thesis
    using R by (intro exI [of _ "add_mset (x, da) R0"]) simp
qed


lemma merge_deepest:
  fixes R2 :: "(int \<times> nat) multiset"
  assumes bound: "\<forall>d\<in>#image_mset snd R2. d \<le> D" and D: "1 \<le> D" "D \<le> N"
    and W: "image_mset fst (add_mset (x, D) (add_mset (y, D) R2)) = add_mset a (add_mset b W)"
    and ab: "a \<le> b" "\<forall>w\<in>#W. b \<le> w"
  shows "\<exists>R''. image_mset fst R'' = W \<and> image_mset snd R'' = image_mset snd R2
             \<and> wcost (add_mset (a + b, D - 1) R'') + a + b
                 \<le> wcost (add_mset (x, D) (add_mset (y, D) R2))"
proof -
  let ?R = "add_mset (y, D) R2"
  from W have W': "add_mset x (image_mset fst ?R) = add_mset a (add_mset b W)" by simp
  have "\<forall>d\<in>#image_mset snd ?R. d \<le> D"
    using bound by simp
  moreover have "\<forall>w\<in>#add_mset x (image_mset fst ?R). a \<le> w"
    unfolding W' using ab by auto
  moreover have "a \<in># add_mset x (image_mset fst ?R)"
    unfolding W' by simp
  ultimately obtain R' where R':
    "image_mset fst R' = add_mset x (image_mset fst ?R) - {#a#}"
    "image_mset snd R' = image_mset snd ?R"
    "wcost (add_mset (a, D) R') \<le> wcost (add_mset (x, D) ?R)"
    using min_to_deep_slot [of ?R D x a] by blast
  from R'(1) have f1: "image_mset fst R' = add_mset b W"
    unfolding W' by simp
  from R'(2) have "D \<in># image_mset snd R'" by simp
  then obtain q where "q \<in># R'" "snd q = D" by auto
  then obtain y' R3 where R3: "R' = add_mset (y', D) R3"
    by (metis insert_DiffM prod.collapse)
  from R'(2) R3 have s3: "image_mset snd R3 = image_mset snd R2" by simp
  from f1 R3 have f3: "add_mset y' (image_mset fst R3) = add_mset b W" by simp
  have "\<forall>d\<in>#image_mset snd R3. d \<le> D"
    unfolding s3 using bound .
  moreover have "\<forall>w\<in>#add_mset y' (image_mset fst R3). b \<le> w"
    unfolding f3 using ab by auto
  moreover have "b \<in># add_mset y' (image_mset fst R3)"
    unfolding f3 by simp
  ultimately obtain R'' where R'':
    "image_mset fst R'' = add_mset y' (image_mset fst R3) - {#b#}"
    "image_mset snd R'' = image_mset snd R3"
    "wcost (add_mset (b, D) R'') \<le> wcost (add_mset (y', D) R3)"
    using min_to_deep_slot [of R3 D y' b] by blast
  from R''(1) have f: "image_mset fst R'' = W"
    unfolding f3 by simp
  from D(1) have "int (D - 1) = int D - 1" by simp
  then have "wcost (add_mset (a + b, D - 1) R'') + a + b
             = a * int D + wcost (add_mset (b, D) R'')"
    by (simp add: algebra_simps)
  also from R''(3) R3 have "\<dots> \<le> wcost (add_mset (a, D) R')" by simp
  also note R'(3)
  finally show ?thesis
    using f R''(2) s3 by (intro exI [of _ R'']) simp
qed

lemma exchange:
  fixes P :: "(int \<times> nat) multiset"
  assumes "\<forall>w\<in>#image_mset fst P. 0 \<le> w" "\<forall>d\<in>#image_mset snd P. d \<le> N"
    and "kraft N P \<le> 2 ^ N"
    and "image_mset fst P = add_mset a (add_mset b W)" "a \<le> b" "\<forall>w\<in>#W. b \<le> w"
  shows "\<exists>P'. image_mset fst P' = add_mset (a + b) W
            \<and> (\<forall>d\<in>#image_mset snd P'. d \<le> N)
            \<and> kraft N P' \<le> 2 ^ N
            \<and> wcost P' + a + b \<le> wcost P"
  using assms(1-4)
proof (induction "sum_mset (image_mset snd P)" arbitrary: P rule: less_induct)
  case less
  note nonneg = less.prems(1) and bound = less.prems(2) and kr = less.prems(3)
    and W = less.prems(4)
  from W have "size (image_mset fst P) = Suc (Suc (size W))" by simp
  then have size2: "2 \<le> size P" by simp
  then have ne: "P \<noteq> {#}" by auto
  define D where "D = Max (snd ` set_mset P)"
  have Dmax: "\<forall>d\<in>#image_mset snd P. d \<le> D"
    by (simp add: D_def)
  from ne have "D \<in> snd ` set_mset P"
    unfolding D_def by (intro Max_in) simp_all
  then obtain x where "(x, D) \<in># P" by auto
  then obtain R where P: "P = add_mset (x, D) R"
    by (metis insert_DiffM)
  from bound P have DN: "D \<le> N" by simp
  from nonneg P have x0: "0 \<le> x" by simp
  have D1: "1 \<le> D"
  proof (rule ccontr)
    assume "\<not> 1 \<le> D"
    then have "D = 0" by simp
    with kraft_lower [OF Dmax, of N] have "size P * 2 ^ N \<le> kraft N P" by simp
    from order_trans [OF this kr] have "size P \<le> 1" by simp
    with size2 show False by simp
  qed
  show ?case
  proof (cases "\<forall>d\<in>#image_mset snd R. d < D")
    case True
    let ?M = "(2::nat) ^ (N - D + 1)"
    let ?P = "add_mset (x, D - 1) R"
    from kraft_dvd [OF True DN] have "?M dvd kraft N R" .
    moreover have "?M dvd 2 ^ N"
      using D1 DN by (intro le_imp_power_dvd) simp
    moreover have "kraft N R < 2 ^ N"
    proof -
      have "(0::nat) < 2 ^ (N - D)" by simp
      moreover from kr P have "2 ^ (N - D) + kraft N R \<le> 2 ^ N" by simp
      ultimately show ?thesis by linarith
    qed
    ultimately have "?M + kraft N R \<le> 2 ^ N"
      by (rule room_for_one_more)
    moreover from D1 DN have "N - (D - 1) = N - D + 1" by simp
    ultimately have k': "kraft N ?P \<le> 2 ^ N" by simp
    from D1 P have "sum_mset (image_mset snd ?P) < sum_mset (image_mset snd P)"
      by simp
    moreover from nonneg P have "\<forall>w\<in>#image_mset fst ?P. 0 \<le> w" by simp
    moreover from bound P have "\<forall>d\<in>#image_mset snd ?P. d \<le> N" by auto
    moreover from W P have "image_mset fst ?P = add_mset a (add_mset b W)" by simp
    ultimately obtain P' where P':
      "image_mset fst P' = add_mset (a + b) W" "\<forall>d\<in>#image_mset snd P'. d \<le> N"
      "kraft N P' \<le> 2 ^ N" "wcost P' + a + b \<le> wcost ?P"
      using less.hyps [of ?P] k' by blast
    from x0 have "x * int (D - 1) \<le> x * int D"
      by (intro mult_left_mono) simp_all
    with P have "wcost ?P \<le> wcost P" by simp
    with P' show ?thesis by (intro exI [of _ P']) simp
  next
    case False
    then obtain d where d: "d \<in># image_mset snd R" "\<not> d < D" by blast
    with Dmax P have "d \<le> D" by auto
    with d(2) have "d = D" by simp
    with d(1) have "D \<in># image_mset snd R" by simp
    then obtain q where "q \<in># R" "snd q = D" by auto
    then obtain y R2 where R: "R = add_mset (y, D) R2"
      by (metis insert_DiffM prod.collapse)
    from Dmax P R have b2: "\<forall>d\<in>#image_mset snd R2. d \<le> D" by simp
    from W P R
    have W2: "image_mset fst (add_mset (x, D) (add_mset (y, D) R2)) = add_mset a (add_mset b W)"
      by simp
    from merge_deepest [OF b2 D1 DN W2 assms(5,6)] obtain R'' where R'':
      "image_mset fst R'' = W" "image_mset snd R'' = image_mset snd R2"
      "wcost (add_mset (a + b, D - 1) R'') + a + b
         \<le> wcost (add_mset (x, D) (add_mset (y, D) R2))"
      by blast
    let ?P' = "add_mset (a + b, D - 1) R''"
    from D1 DN have "(2::nat) ^ (N - (D - 1)) = 2 ^ (N - D) + 2 ^ (N - D)"
      by (simp add: Suc_diff_le flip: mult_2)
    with kraft_cong [OF R''(2), of N] kr P R have "kraft N ?P' \<le> 2 ^ N" by simp
    moreover from bound P R R''(2) DN have "\<forall>d\<in>#image_mset snd ?P'. d \<le> N" by auto
    moreover from R''(1) have "image_mset fst ?P' = add_mset (a + b) W" by simp
    ultimately show ?thesis
      using R''(3) P R by (intro exI [of _ ?P']) simp
  qed
qed


section \<open>Optimality\<close>

text \<open>
  \<open>cost_tree\<close> adds up the frequencies of the nodes that have two children; for a tree of
  the loop this is the weighted length of its code. \<open>encoded_length\<close> is the number of bits
  that a code spends on a text with the given frequencies, and \<open>code_of\<close> reads the code of a
  symbol in a table.
\<close>

fun cost_tree :: "HuffmanNode \<Rightarrow> int" where
  "cost_tree (HuffmanNode c f l r) =
     (case l of
        None \<Rightarrow> 0
      | Some a \<Rightarrow> (case r of None \<Rightarrow> 0 | Some b \<Rightarrow> f + cost_tree a + cost_tree b))"

lemma cost_tree_merge:
  "cost_tree (merge_nodes a b) = freq a + freq b + cost_tree a + cost_tree b"
  by (simp add: merge_nodes_def)

lemma freq_merge: "freq (merge_nodes a b) = freq a + freq b"
  by (simp add: merge_nodes_def)

lemma merge_step_min:
  assumes "is_heap heap" "merge_step heap = Inr heap'"
  shows "\<exists>node1 node2 R. mset heap = add_mset node1 (add_mset node2 R)
           \<and> mset heap' = add_mset (merge_nodes node1 node2) R
           \<and> freq node1 \<le> freq node2 \<and> (\<forall>r\<in>#R. freq node2 \<le> freq r)
           \<and> is_heap heap'"
proof -
  from assms(2) obtain node1 heap1 node2 heap2 where
    p1: "heappop heap = Inr (node1, heap1)" and
    p2: "heappop heap1 = Inr (node2, heap2)" and
    h: "heap' = heappush heap2 (merge_nodes node1 node2)"
    by (auto simp: merge_step_def split: sum.splits)
  from heappop_heap [OF assms(1) p1]
  have h1: "is_heap heap1" and m1: "\<forall>y\<in>set heap. freq node1 \<le> freq y" by simp_all
  from heappop_heap [OF h1 p2]
  have h2: "is_heap heap2" and m2: "\<forall>y\<in>set heap1. freq node2 \<le> freq y" by simp_all
  note s1 = mset_heappop [OF p1] and s2 = mset_heappop [OF p2]
  from s1 s2 have "node2 \<in># mset heap" by simp
  with m1 have "freq node1 \<le> freq node2" by simp
  moreover from s2 m2 have "\<forall>r\<in>#mset heap2. freq node2 \<le> freq r"
    by (metis in_multiset_in_set union_single_eq_member add_mset_add_single insert_iff set_mset_add_mset_insert)
  moreover from h2 h have "is_heap heap'" by (simp add: is_heap_heappush)
  moreover from s1 s2 have "mset heap = add_mset node1 (add_mset node2 (mset heap2))" by simp
  moreover from h have "mset heap' = add_mset (merge_nodes node1 node2) (mset heap2)"
    by (simp add: mset_heappush)
  ultimately show ?thesis by blast
qed

lemma merge_loop_optimal:
  "is_heap heap \<Longrightarrow> \<forall>u\<in>#mset heap. 0 \<le> freq u \<Longrightarrow> merge_loop heap = Inr [t] \<Longrightarrow>
   image_mset fst P = image_mset freq (mset heap) \<Longrightarrow> \<forall>d\<in>#image_mset snd P. d \<le> N \<Longrightarrow>
   kraft N P \<le> 2 ^ N \<Longrightarrow>
   cost_tree t \<le> (\<Sum>u\<in>#mset heap. cost_tree u) + wcost P"
proof (induction heap arbitrary: P rule: merge_loop.induct)
  case (1 heap)
  have nonneg: "\<forall>w\<in>#image_mset fst P. 0 \<le> w"
    unfolding "1.prems"(4) using "1.prems"(2) by simp
  show ?case
  proof (cases "1 < length heap")
    case True
    from merge_step_total [OF True] obtain h1 where m: "merge_step heap = Inr h1" by blast
    have loop: "merge_loop heap = merge_loop h1"
      using True m by (subst merge_loop.simps) simp
    from merge_step_min [OF "1.prems"(1) m] obtain n1 n2 R where
      s: "mset heap = add_mset n1 (add_mset n2 R)"
         "mset h1 = add_mset (merge_nodes n1 n2) R"
         "freq n1 \<le> freq n2" "\<forall>r\<in>#R. freq n2 \<le> freq r" "is_heap h1"
      by blast
    from "1.prems"(4) s(1)
    have W: "image_mset fst P = add_mset (freq n1) (add_mset (freq n2) (image_mset freq R))"
      by simp
    from s(4) have W2: "\<forall>w\<in>#image_mset freq R. freq n2 \<le> w" by simp
    from exchange [OF nonneg "1.prems"(5,6) W s(3) W2] obtain P' where P':
      "image_mset fst P' = add_mset (freq n1 + freq n2) (image_mset freq R)"
      "\<forall>d\<in>#image_mset snd P'. d \<le> N" "kraft N P' \<le> 2 ^ N"
      "wcost P' + freq n1 + freq n2 \<le> wcost P"
      by blast
    from "1.prems"(2) s(1,2) have nn: "\<forall>u\<in>#mset h1. 0 \<le> freq u"
      by (auto simp: freq_merge)
    from P'(1) s(2) have im: "image_mset fst P' = image_mset freq (mset h1)"
      by (simp add: freq_merge)
    from "1.prems"(3) loop have l1: "merge_loop h1 = Inr [t]" by simp
    from "1.IH" [OF True m s(5) nn l1 im P'(2,3)]
    have "cost_tree t \<le> (\<Sum>u\<in>#mset h1. cost_tree u) + wcost P'" .
    also have "(\<Sum>u\<in>#mset h1. cost_tree u)
               = (\<Sum>u\<in>#mset heap. cost_tree u) + freq n1 + freq n2"
      unfolding s(1,2) by (simp add: cost_tree_merge)
    finally show ?thesis using P'(4) by simp
  next
    case False
    then have "merge_loop heap = Inr heap"
      by (subst merge_loop.simps) simp
    with "1.prems"(3) have "heap = [t]" by simp
    with wcost_nonneg [OF nonneg] show ?thesis by simp
  qed
qed

lemma is_heap_initial: "is_heap (initial_heap ft)"
proof (induction ft rule: rev_induct)
  case Nil
  show ?case by (simp add: initial_heap_def is_heap_def)
next
  case (snoc x xs)
  then show ?case
    by (simp add: initial_heap_def push_leaf_def is_heap_heappush)
qed

lemma entries_cost:
  "wf_tree t \<Longrightarrow>
   (\<Sum>(s, f, c)\<leftarrow>entries t code. f * int (length c)) = cost_tree t + freq t * int (length code)"
proof (induction t code rule: entries.induct)
  case (1 ch fr l r code)
  show ?case
  proof (cases l)
    case None
    with "1.prems" show ?thesis by (auto split: option.splits)
  next
    case (Some a)
    with "1.prems" obtain b where r: "r = Some b" and c: "ch = None"
      and f: "fr = freq a + freq b" and wa: "wf_tree a" and wb: "wf_tree b"
      by (auto split: option.splits)
    from "1.IH"(1) [OF Some wa] "1.IH"(2) [OF r wb] Some r c f show ?thesis
      by (simp add: algebra_simps)
  qed
qed


lemma kraft_prefix_free:
  fixes code :: "'a \<Rightarrow> string"
  assumes d: "distinct syms"
    and bin: "\<forall>a\<in>set syms. set (code a) \<subseteq> {CHR ''0'', CHR ''1''}"
    and pf: "\<forall>a\<in>set syms. \<forall>b\<in>set syms. a \<noteq> b \<longrightarrow> \<not> prefix (code a) (code b)"
    and len: "\<forall>a\<in>set syms. length (code a) \<le> N"
  shows "(\<Sum>a\<leftarrow>syms. (2::nat) ^ (N - length (code a))) \<le> 2 ^ N"
proof -
  let ?B = "{CHR ''0'', CHR ''1''}"
  let ?words = "\<lambda>k. {s. set s \<subseteq> ?B \<and> length s = k}"
  define ext where "ext a = (\<lambda>s. code a @ s) ` ?words (N - length (code a))" for a
  have cw: "card (?words k) = 2 ^ k" for k
    using card_lists_length_eq [of ?B k] by (simp add: numeral_2_eq_2)
  have fw: "finite (?words k)" for k
    by (rule finite_lists_length_eq) simp
  have card_ext: "card (ext a) = 2 ^ (N - length (code a))" for a
    unfolding ext_def by (subst card_image) (auto simp: inj_on_def cw)
  have fin: "finite (ext a)" for a
    unfolding ext_def using fw by (rule finite_imageI)
  have sub: "ext a \<subseteq> ?words N" if a: "a \<in> set syms" for a
  proof
    fix x assume "x \<in> ext a"
    then obtain s where s: "x = code a @ s" "set s \<subseteq> ?B" "length s = N - length (code a)"
      unfolding ext_def by blast
    from a bin have "set (code a) \<subseteq> ?B" by blast
    with s(1,2) have "set x \<subseteq> ?B" by simp
    moreover from a len s(1,3) have "length x = N" by simp
    ultimately show "x \<in> ?words N" by simp
  qed
  have disj: "ext a \<inter> ext b = {}" if "a \<in> set syms" "b \<in> set syms" "a \<noteq> b" for a b
  proof (rule ccontr)
    assume "ext a \<inter> ext b \<noteq> {}"
    then obtain x where "x \<in> ext a" "x \<in> ext b" by blast
    then obtain s s' where xa: "x = code a @ s" and xb: "x = code b @ s'"
      unfolding ext_def by blast
    from xa have "prefix (code a) x" by (rule prefixI)
    moreover from xb have "prefix (code b) x" by (rule prefixI)
    ultimately have "prefix (code a) x" "prefix (code b) x" .
    then have "prefix (code a) (code b) \<or> prefix (code b) (code a)"
      by (rule prefix_same_cases)
    with pf that show False by (metis)
  qed
  have "(\<Sum>a\<leftarrow>syms. (2::nat) ^ (N - length (code a))) = (\<Sum>a\<in>set syms. card (ext a))"
    using d by (simp add: sum_list_distinct_conv_sum_set card_ext)
  also have "\<dots> = card (\<Union>a\<in>set syms. ext a)"
    using fin disj by (intro card_UN_disjoint [symmetric]) auto
  also have "\<dots> \<le> card (?words N)"
  proof (rule card_mono)
    show "finite (?words N)" by (rule fw)
    show "(\<Union>a\<in>set syms. ext a) \<subseteq> ?words N"
      using sub by (rule UN_least)
  qed
  also have "\<dots> = 2 ^ N" by (rule cw)
  finally show ?thesis .
qed


definition encoded_length :: "(pyval, int) dict \<Rightarrow> (pyval \<Rightarrow> string) \<Rightarrow> int" where
  "encoded_length frequency_table code =
     (\<Sum>(s, f)\<leftarrow>frequency_table. f * int (length (code s)))"

definition code_of :: "(pyval, string) dict \<Rightarrow> pyval \<Rightarrow> string" where
  "code_of encoding_table s = dict_get encoding_table s []"

lemma sum_list_mset_cong:
  fixes g :: "'a \<Rightarrow> 'b::comm_monoid_add"
  assumes "mset xs = mset ys"
  shows "sum_list (map g xs) = sum_list (map g ys)"
proof -
  have "sum_list (map g zs) = sum_mset (image_mset g (mset zs))" for zs
    by (metis mset_map sum_mset_sum_list)
  with assms show ?thesis by simp
qed

lemma merge_loop_single:
  assumes "ft \<noteq> []"
  shows "\<exists>t. merge_loop (initial_heap ft) = Inr [t] \<and> build_huffman_tree ft = Inr ([], Some t)"
proof -
  have ne: "initial_heap ft \<noteq> []"
    using length_initial_heap [of ft] assms by auto
  from merge_loop_invariant [of "\<lambda>_. True" "initial_heap ft"] ne
  obtain h' where h': "merge_loop (initial_heap ft) = Inr h'" "length h' = 1"
    by blast
  from h'(2) obtain t where "h' = [t]"
    by (cases h') auto
  with h'(1) show ?thesis
    by (simp add: build_huffman_tree_def)
qed

lemma huffman_length_is_cost:
  assumes d: "distinct (map fst ft)" and wf: "wf_tree t"
    and items: "mset (leaf_items t) = mset ft"
    and table: "build_encoding_table (Some t) = map (\<lambda>(s, f, c). (s, c)) (entries t [])"
  shows "encoded_length ft (code_of (build_encoding_table (Some t))) = cost_tree t"
proof -
  let ?tbl = "build_encoding_table (Some t)"
  let ?g = "\<lambda>(s, f). f * int (length (code_of ?tbl s))"
  have keys: "map fst ?tbl = map fst (leaf_items t)"
    unfolding table by (simp add: leaf_items_def case_prod_beta)
  from leaf_items_keys [OF items] d have "distinct (map fst (leaf_items t))"
    by (metis mset_eq_imp_distinct_iff)
  with keys have dt: "distinct (map fst ?tbl)" by simp
  have look: "code_of ?tbl s = c" if "(s, f, c) \<in> set (entries t [])" for s f c
  proof -
    from that have "(s, c) \<in> set ?tbl"
      unfolding table by force
    with dt have "map_of ?tbl s = Some c" by simp
    then show ?thesis by (simp add: code_of_def dict_get_def)
  qed
  have "encoded_length ft (code_of ?tbl) = sum_list (map ?g ft)"
    by (simp add: encoded_length_def)
  also have "\<dots> = sum_list (map ?g (leaf_items t))"
    by (rule sum_list_mset_cong [OF items [symmetric]])
  also have "\<dots> = (\<Sum>(s, f, c)\<leftarrow>entries t []. f * int (length (code_of ?tbl s)))"
    by (simp add: leaf_items_def case_prod_unfold comp_def)
  also have "\<dots> = (\<Sum>(s, f, c)\<leftarrow>entries t []. f * int (length c))"
    by (rule arg_cong [of _ _ sum_list], rule map_cong) (auto simp: look)
  also have "\<dots> = cost_tree t"
    using entries_cost [OF wf, of "[]"] by simp
  finally show ?thesis .
qed

lemma term_le_sum_list:
  fixes g :: "'a \<Rightarrow> nat"
  shows "a \<in> set xs \<Longrightarrow> g a \<le> (\<Sum>x\<leftarrow>xs. g x)"
  by (induction xs) auto

lemma competitor_bound:
  assumes d: "distinct (map fst ft)" and pos: "\<forall>(s, f)\<in>set ft. 0 \<le> f"
    and loop: "merge_loop (initial_heap ft) = Inr [t]"
    and bin: "\<forall>a\<in>fst ` set ft. set (code a) \<subseteq> {CHR ''0'', CHR ''1''}"
    and pf: "\<forall>a\<in>fst ` set ft. \<forall>b\<in>fst ` set ft. a \<noteq> b \<longrightarrow> \<not> prefix (code a) (code b)"
  shows "cost_tree t \<le> encoded_length ft code"
proof -
  define N where "N = (\<Sum>a\<leftarrow>map fst ft. length (code a))"
  define P where "P = image_mset (\<lambda>(s, f). (f, length (code s))) (mset ft)"
  let ?heap = "initial_heap ft"
  have len: "\<forall>a\<in>set (map fst ft). length (code a) \<le> N"
  proof
    fix a assume "a \<in> set (map fst ft)"
    then show "length (code a) \<le> N"
      unfolding N_def by (rule term_le_sum_list)
  qed
  have nonneg: "\<forall>u\<in>#mset ?heap. 0 \<le> freq u"
    unfolding mset_initial_heap using pos by fastforce
  have wts: "image_mset fst P = image_mset freq (mset ?heap)"
    unfolding mset_initial_heap P_def
    by (simp add: multiset.map_comp comp_def case_prod_unfold)
  have dep: "image_mset snd P = mset (map (\<lambda>a. length (code a)) (map fst ft))"
    unfolding P_def by (simp add: multiset.map_comp comp_def case_prod_unfold)
  have bound: "\<forall>d\<in>#image_mset snd P. d \<le> N"
    unfolding dep using len by auto
  have "kraft N P = (\<Sum>a\<leftarrow>map fst ft. 2 ^ (N - length (code a)))"
    unfolding kraft_def dep
    by (simp add: multiset.map_comp comp_def flip: sum_mset_sum_list)
  also have "\<dots> \<le> 2 ^ N"
    using d bin pf len by (intro kraft_prefix_free) simp_all
  finally have kr: "kraft N P \<le> 2 ^ N" .
  have zero: "(\<Sum>u\<in>#mset ?heap. cost_tree u) = 0"
    unfolding mset_initial_heap
    by (simp add: multiset.map_comp comp_def case_prod_unfold)
  have "wcost P = sum_mset (image_mset (\<lambda>(s, f). f * int (length (code s))) (mset ft))"
    unfolding wcost_def P_def
    by (simp add: multiset.map_comp comp_def case_prod_unfold)
  also have "\<dots> = encoded_length ft code"
    unfolding encoded_length_def by (metis mset_map sum_mset_sum_list)
  finally have wc: "wcost P = encoded_length ft code" .
  from merge_loop_optimal [OF is_heap_initial nonneg loop wts bound kr] zero wc
  show ?thesis by simp
qed

lemma huffman_code_in_class:
  assumes d: "distinct (map fst ft)" and wf: "wf_tree t"
    and items: "mset (leaf_items t) = mset ft"
    and table: "build_encoding_table (Some t) = map (\<lambda>(s, f, c). (s, c)) (entries t [])"
  shows "\<forall>a\<in>fst ` set ft. set (code_of (build_encoding_table (Some t)) a) \<subseteq> {CHR ''0'', CHR ''1''}"
    and "\<forall>a\<in>fst ` set ft. \<forall>b\<in>fst ` set ft. a \<noteq> b \<longrightarrow>
           \<not> prefix (code_of (build_encoding_table (Some t)) a)
                     (code_of (build_encoding_table (Some t)) b)"
proof -
  let ?tbl = "build_encoding_table (Some t)"
  have keys: "map fst ?tbl = map fst (leaf_items t)"
    unfolding table by (simp add: leaf_items_def case_prod_beta)
  from leaf_items_keys [OF items] d have "distinct (map fst (leaf_items t))"
    by (metis mset_eq_imp_distinct_iff)
  with keys have dt: "distinct (map fst ?tbl)" by simp
  have entry: "\<exists>f. (a, f, code_of ?tbl a) \<in> set (entries t [])" if "a \<in> fst ` set ft" for a
  proof -
    from that have "a \<in> set (map fst ft)" by simp
    with leaf_items_keys [OF items] have "a \<in> set (map fst (leaf_items t))"
      by (metis set_mset_mset)
    then obtain f c where e: "(a, f, c) \<in> set (entries t [])"
      by (auto simp: leaf_items_def)
    then have "(a, c) \<in> set ?tbl"
      unfolding table by force
    with dt have "map_of ?tbl a = Some c" by simp
    then have "code_of ?tbl a = c" by (simp add: code_of_def dict_get_def)
    with e show ?thesis by blast
  qed
  show "\<forall>a\<in>fst ` set ft. set (code_of ?tbl a) \<subseteq> {CHR ''0'', CHR ''1''}"
  proof
    fix a assume "a \<in> fst ` set ft"
    from entry [OF this] obtain f where "(a, f, code_of ?tbl a) \<in> set (entries t [])" ..
    from entries_binary [OF this] show "set (code_of ?tbl a) \<subseteq> {CHR ''0'', CHR ''1''}"
      by simp
  qed
  show "\<forall>a\<in>fst ` set ft. \<forall>b\<in>fst ` set ft. a \<noteq> b \<longrightarrow>
          \<not> prefix (code_of ?tbl a) (code_of ?tbl b)"
  proof (intro ballI impI)
    fix a b assume a: "a \<in> fst ` set ft" and b: "b \<in> fst ` set ft" and ab: "a \<noteq> b"
    from entry [OF a] obtain fa where ea: "(a, fa, code_of ?tbl a) \<in> set (entries t [])" ..
    from entry [OF b] obtain fb where eb: "(b, fb, code_of ?tbl b) \<in> set (entries t [])" ..
    from entries_prefix_free [OF wf ea eb ab]
    show "\<not> prefix (code_of ?tbl a) (code_of ?tbl b)" .
  qed
qed

text \<open>
  Claim C8. For a frequency table with distinct keys, counts that are not negative and at
  least two entries, the code table built from the tree of \<^verbatim>\<open>build_huffman_tree\<close> is itself
  a prefix-free binary code, and its encoded length, the sum of frequency times code length,
  is at most that of any assignment \<open>code\<close> of binary strings to the symbols in which no
  code is a prefix of another.
\<close>

theorem C8_optimal:
  assumes "distinct (map fst ft)" and "\<forall>(s, f)\<in>set ft. 0 \<le> f" and "2 \<le> length ft"
    and "\<forall>a\<in>fst ` set ft. set (code a) \<subseteq> {CHR ''0'', CHR ''1''}"
    and "\<forall>a\<in>fst ` set ft. \<forall>b\<in>fst ` set ft. a \<noteq> b \<longrightarrow> \<not> prefix (code a) (code b)"
  shows "\<exists>t. build_huffman_tree ft = Inr ([], Some t)
           \<and> (\<forall>a\<in>fst ` set ft.
                 set (code_of (build_encoding_table (Some t)) a) \<subseteq> {CHR ''0'', CHR ''1''})
           \<and> (\<forall>a\<in>fst ` set ft. \<forall>b\<in>fst ` set ft. a \<noteq> b \<longrightarrow>
                 \<not> prefix (code_of (build_encoding_table (Some t)) a)
                           (code_of (build_encoding_table (Some t)) b))
           \<and> encoded_length ft (code_of (build_encoding_table (Some t)))
               \<le> encoded_length ft code"
proof -
  from assms(3) have ne: "ft \<noteq> []" by auto
  from merge_loop_single [OF ne] obtain t where
    t: "merge_loop (initial_heap ft) = Inr [t]" "build_huffman_tree ft = Inr ([], Some t)"
    by blast
  from tree_table [OF assms(1) ne] t(2)
  have wf: "wf_tree t" and items: "mset (leaf_items t) = mset ft"
    and table: "build_encoding_table (Some t) = map (\<lambda>(s, f, c). (s, c)) (entries t [])"
    by auto
  from huffman_length_is_cost [OF assms(1) wf items table]
    competitor_bound [OF assms(1,2) t(1) assms(4,5)]
  have "encoded_length ft (code_of (build_encoding_table (Some t))) \<le> encoded_length ft code"
    by simp
  with t(2) huffman_code_in_class [OF assms(1) wf items table] show ?thesis
    by blast
qed

theorem C8_optimal_witness:
  "\<exists>t. build_huffman_tree [(PyInt 97, 3), (PyInt 98, 2), (PyInt 99, 1)] = Inr ([], Some t)
        \<and> encoded_length [(PyInt 97, 3), (PyInt 98, 2), (PyInt 99, 1)]
             (code_of (build_encoding_table (Some t))) \<le> 12"
proof -
  let ?ft = "[(PyInt 97, 3::int), (PyInt 98, 2), (PyInt 99, 1)]"
  let ?code = "\<lambda>s. if s = PyInt 97 then ''00'' else if s = PyInt 98 then ''01'' else ''10''"
  have h1: "distinct (map fst ?ft)" by simp
  have h2: "\<forall>(s, f)\<in>set ?ft. 0 \<le> f" by simp
  have h3: "2 \<le> length ?ft" by simp
  have h4: "\<forall>a\<in>fst ` set ?ft. set (?code a) \<subseteq> {CHR ''0'', CHR ''1''}" by simp
  have h5: "\<forall>a\<in>fst ` set ?ft. \<forall>b\<in>fst ` set ?ft. a \<noteq> b \<longrightarrow> \<not> prefix (?code a) (?code b)"
    by simp
  have e: "encoded_length ?ft ?code = 12"
    by (simp add: encoded_length_def)
  from C8_optimal [of ?ft ?code, OF h1 h2 h3 h4 h5] show ?thesis
    unfolding e by blast
qed


section \<open>The round trip and the single symbol, for every input\<close>

text \<open>
  What the evaluations for C1 and C2 show holds in general. Whatever the data and whatever
  the compressed file, decoding with the table built from the data writes the empty text,
  since the keys of that table are integers.
\<close>

lemma decode_with_symbol_table:
  "\<exists>printed tree.
     build_huffman_tree (build_frequency_table (iter_bytes data)) = Inr (printed, tree)
     \<and> decompress_file file_content (Some (build_encoding_table tree)) = Inr []"
proof -
  from encoding_table_of_data [of "iter_bytes data"] obtain printed tree where
    t: "build_huffman_tree (build_frequency_table (iter_bytes data)) = Inr (printed, tree)"
       "fst ` set (build_encoding_table tree) = set (iter_bytes data)"
    by blast
  from t(2) have "\<forall>k\<in>fst ` set (build_encoding_table tree). \<exists>i. k = PyInt i"
    by (auto simp: iter_bytes_def)
  from decode_loop_int_keys [OF this] t(1) show ?thesis
    by (simp add: decompress_file_def)
qed

text \<open>
  A table with one symbol gives the single leaf and the empty code, and every run of one
  byte, of any length, compresses to the padding byte 8 followed by one zero byte.
\<close>

lemma single_leaf_tree:
  "build_huffman_tree [(c, f)] = Inr ([], Some (HuffmanNode (Some c) f None None))"
proof -
  let ?leaf = "HuffmanNode (Some c) f None None"
  have "siftdown_loop [?leaf] 0 ?leaf 0 = ([?leaf], 0)"
    by (subst siftdown_loop.simps) simp
  then have "initial_heap [(c, f)] = [?leaf]"
    by (simp add: initial_heap_def push_leaf_def heappush_def siftdown_def)
  moreover have "merge_loop [?leaf] = Inr [?leaf]"
    by (subst merge_loop.simps) simp
  ultimately show ?thesis
    by (simp add: build_huffman_tree_def)
qed

lemma single_leaf_table:
  "build_encoding_table (Some (HuffmanNode (Some c) f None None)) = [(c, [])]"
  by (simp add: build_encoding_table_def dict_set_def)

lemma frequency_table_replicate:
  "0 < n \<Longrightarrow> build_frequency_table (replicate n c) = [(c, int n)]"
proof -
  have "foldl count_char [(c, v)] (replicate m c) = [(c, v + int m)]" for v m
    by (induction m arbitrary: v) (simp_all add: count_char_def dict_set_def dict_get_def)
  from this [of 1 "n - 1"] show "0 < n \<Longrightarrow> build_frequency_table (replicate n c) = [(c, int n)]"
    by (cases n) (simp_all add: build_frequency_table_def count_char_def dict_set_def dict_get_def)
qed

lemma join_codes_empty_code: "join_codes [(c, [])] (replicate n c) = Inr []"
  by (induction n) (simp_all add: dict_item_def)

lemma pack_eight_zeros: "pack_bytes (replicate 8 (CHR ''0'')) = Inr [0]"
  by code_simp

lemma same_symbol_artifact: "compress_data (replicate n b) = Inr [8, 0]"
proof (cases n)
  case 0
  have "merge_loop [] = Inr []"
    by (subst merge_loop.simps) simp
  then have "build_huffman_tree [] = Inr ([EmptyAlphabet], None)"
    by (simp add: build_huffman_tree_def initial_heap_def)
  with 0 pack_eight_zeros show ?thesis
    by (simp add: compress_data_def iter_bytes_def build_frequency_table_def
        build_encoding_table_def to_byte_def)
next
  case (Suc m)
  then have "0 < n" by simp
  have it: "iter_bytes (replicate n b) = replicate n (PyInt (uint b))"
    by (simp add: iter_bytes_def)
  from frequency_table_replicate [OF \<open>0 < n\<close>, of "PyInt (uint b)"] pack_eight_zeros
  show ?thesis
    unfolding compress_data_def it
    by (simp add: single_leaf_tree single_leaf_table join_codes_empty_code to_byte_def)
qed


end
